theory Spec2Isabelle
  imports Complex_Main "HOL-Library.Word" "HOL-Library.Multiset" "HOL-Library.Log_Nat"
begin

unbundle bit_operations_syntax

section \<open>Data model of hll-go\<close>

text \<open>
  The sketch of the Go package \<^verbatim>\<open>hll\<close>: a register array of \<^verbatim>\<open>uint8\<close>, a version string and a
  reference to a bias table. Machine integers are words of their width. A \<^verbatim>\<open>float64\<close> is
  modelled by a real number extended with the IEEE special values (type \<open>f64\<close> below). The
  arithmetic of \<^verbatim>\<open>Estimate\<close> is exact: its rounding is not modelled. The arithmetic of
  \<^verbatim>\<open>calculateInterpolationPoints\<close>, whose result is an integer cut out of a product, rounds
  to the nearest \<^verbatim>\<open>float64\<close> (section on the generation of biases). A conversion \<^verbatim>\<open>uint64(f)\<close> of a value outside the range of the
  target is implementation-dependent in Go; it is the error value
  \<open>ImplementationDependentConversion\<close> here. A run-time panic of an index expression is
  the error value \<open>PanicIndexOutOfRange\<close>.
\<close>

type_synonym byte = "8 word"
type_synonym uint8 = "8 word"
type_synonym uint32 = "32 word"
type_synonym uint64 = "64 word"

datatype error =
    ErrorMismatchedVersion
  | ErrorMalformedPrecision
  | ErrorNilProto
  | ErrorProto string
  | ErrorRollupEmpty
  | ErrorRollupVersion
  | ErrorRollupPrecision
  | ErrorInvalidOptions string
  | PanicIndexOutOfRange
  | ImplementationDependentConversion

text \<open>
  The file \<^verbatim>\<open>biases.go\<close> (type \<^verbatim>\<open>biases\<close>, \<^verbatim>\<open>defaultBiases\<close>, \<^verbatim>\<open>getInterpolatedBias\<close>) is not among
  the sources. \<^verbatim>\<open>Estimate\<close> reads the field \<^verbatim>\<open>maxTick\<close> (compared with a \<^verbatim>\<open>uint64\<close>) and calls
  \<^verbatim>\<open>getInterpolatedBias(int) float64\<close>: both are taken as they are used, the method as a
  function-valued field, and \<^verbatim>\<open>defaultBiases\<close> is a parameter \<open>db\<close> of every function that
  calls \<^verbatim>\<open>createSketch\<close>.
\<close>

record biases =
  maxTick :: uint64
  getInterpolatedBias :: "int \<Rightarrow> real"

record sketch =
  biasSet :: biases
  registers :: "uint8 list"
  version :: string

definition hashLength :: nat where "hashLength = 64"
definition precision :: nat where "precision = 14"
definition remnant :: nat where "remnant = hashLength - precision"
definition currentVersion :: string where "currentVersion = ''1''"

definition m :: nat where "m = 2 ^ precision"
definition mf :: real where "mf = real m"
definition maxLinearCounting :: uint64 where "maxLinearCounting = 11500"

definition createSketch :: "biases \<Rightarrow> sketch" where
  "createSketch db = \<lparr>biasSet = db, registers = replicate m 0, version = currentVersion\<rparr>"

text \<open>The data-model invariant: a sketch has exactly \<open>m\<close> registers.\<close>

definition wf_sketch :: "sketch \<Rightarrow> bool" where
  "wf_sketch s = (length (registers s) = m)"


section \<open>Insert\<close>

text \<open>
  \<^verbatim>\<open>bits.LeadingZeros(uint(x))\<close> of the Go standard library, on a target whose \<^verbatim>\<open>uint\<close> has 64
  bits: \<^verbatim>\<open>64 - Len64(x)\<close>, where \<^verbatim>\<open>Len64\<close> is the minimum number of bits that represent x
  (0 for x = 0).
\<close>

fun len_nat :: "nat \<Rightarrow> nat" where
  "len_nat n = (if n = 0 then 0 else Suc (len_nat (n div 2)))"

declare len_nat.simps [simp del]

definition Len64 :: "uint64 \<Rightarrow> nat" where
  "Len64 x = len_nat (unat x)"

definition LeadingZeros :: "uint64 \<Rightarrow> nat" where
  "LeadingZeros x = 64 - Len64 x"

definition bitMask :: uint64 where
  "bitMask = push_bit remnant 1 - 1"

text \<open>
  \<^verbatim>\<open>return hash >> remnant, uint8(bits.LeadingZeros(uint(hash&bitMask)) - precision)\<close>:
  the subtraction is on \<^verbatim>\<open>int\<close>, the conversion to \<^verbatim>\<open>uint8\<close> keeps the low 8 bits.
\<close>

definition getRegisterAndLeadingZeros :: "uint64 \<Rightarrow> uint64 \<times> uint8" where
  "getRegisterAndLeadingZeros hash =
     (drop_bit remnant hash,
      word_of_int (int (LeadingZeros (hash AND bitMask)) - int precision))"

text \<open>
  \<^verbatim>\<open>addHash\<close> mutates the receiver: the model returns the receiver's new state. The index
  expression \<^verbatim>\<open>s.registers[register]\<close> panics when the index is not below the length.
\<close>

definition addHash :: "sketch \<Rightarrow> uint64 \<Rightarrow> error + sketch" where
  "addHash s h =
     (let (register, zeros0) = getRegisterAndLeadingZeros h;
          zeros = zeros0 + 1
      in if \<not> unat register < length (registers s) then Inl PanicIndexOutOfRange
         else if registers s ! unat register \<ge> zeros then Inr s
         else Inr (s\<lparr>registers := (registers s)[unat register := zeros]\<rparr>))"

text \<open>
  \<^verbatim>\<open>Insert\<close> hashes the element with \<^verbatim>\<open>xxh3.Hash\<close>, a function of an external library: it is
  the parameter \<open>hash\<close>.
\<close>

definition Insert :: "(byte list \<Rightarrow> uint64) \<Rightarrow> sketch \<Rightarrow> byte list \<Rightarrow> error + sketch" where
  "Insert hash s element = addHash s (hash element)"

text \<open>A sequence of calls of \<^verbatim>\<open>Insert\<close> on one sketch; a panic ends it.\<close>

fun InsertAll :: "(byte list \<Rightarrow> uint64) \<Rightarrow> sketch \<Rightarrow> byte list list \<Rightarrow> error + sketch" where
  "InsertAll hash s [] = Inr s"
| "InsertAll hash s (e # es) =
     (case Insert hash s e of Inl err \<Rightarrow> Inl err | Inr s' \<Rightarrow> InsertAll hash s' es)"

text \<open>
  The words of the specification: the number of leading zero bits of the remnant, counted
  inside a window of \<open>w\<close> bits (bit \<open>w - 1\<close> is the first one looked at).
\<close>

definition countLeadingZeroBits :: "nat \<Rightarrow> uint64 \<Rightarrow> nat" where
  "countLeadingZeroBits w x = length (takeWhile (\<lambda>i. \<not> bit x i) (rev [0..<w]))"



section \<open>Estimate\<close>

text \<open>
  A \<^verbatim>\<open>float64\<close>: an exact real, or one of the special values. Zero stands for the positive
  zero (the only one these functions divide by is the initial value of a variable).
\<close>

datatype f64 = Finite real | PosInf | NegInf | NaN

text \<open>\<^verbatim>\<open>x / y\<close> on two finite operands.\<close>

definition fdiv :: "real \<Rightarrow> real \<Rightarrow> f64" where
  "fdiv x y =
     (if y \<noteq> 0 then Finite (x / y)
      else if x > 0 then PosInf else if x < 0 then NegInf else NaN)"

text \<open>\<^verbatim>\<open>math.Log\<close>, with its special cases.\<close>

fun flog :: "f64 \<Rightarrow> f64" where
  "flog (Finite x) = (if x > 0 then Finite (ln x) else if x = 0 then NegInf else NaN)"
| "flog PosInf = PosInf"
| "flog NegInf = NaN"
| "flog NaN = NaN"

text \<open>\<^verbatim>\<open>x * y\<close> with a finite left operand.\<close>

fun fmul :: "real \<Rightarrow> f64 \<Rightarrow> f64" where
  "fmul x (Finite y) = Finite (x * y)"
| "fmul x PosInf = (if x > 0 then PosInf else if x < 0 then NegInf else NaN)"
| "fmul x NegInf = (if x > 0 then NegInf else if x < 0 then PosInf else NaN)"
| "fmul x NaN = NaN"

text \<open>
  \<^verbatim>\<open>uint64(f)\<close>: the fraction is discarded (truncation towards zero); a value that the target
  cannot represent, infinite or not a number gives an implementation-dependent result.
\<close>

fun uint64_of_f64 :: "f64 \<Rightarrow> error + uint64" where
  "uint64_of_f64 (Finite x) =
     (if - 1 < x \<and> x < 2 ^ 64 then Inr (word_of_nat (nat \<lfloor>x\<rfloor>))
      else Inl ImplementationDependentConversion)"
| "uint64_of_f64 PosInf = Inl ImplementationDependentConversion"
| "uint64_of_f64 NegInf = Inl ImplementationDependentConversion"
| "uint64_of_f64 NaN = Inl ImplementationDependentConversion"

definition alpha :: real where
  "alpha = 1 / (2 * ln 2)"

text \<open>
  The loop of \<^verbatim>\<open>rawHarmonicEstimate\<close> over the registers, on the pair of its two variables
  \<^verbatim>\<open>sum\<close> (here \<open>sm\<close>) and \<^verbatim>\<open>registersUsed\<close>.
\<close>

fun rawHarmonicLoop :: "uint8 list \<Rightarrow> real \<times> real \<Rightarrow> real \<times> real" where
  "rawHarmonicLoop [] (sm, registersUsed) = (sm, registersUsed)"
| "rawHarmonicLoop (n # ns) (sm, registersUsed) =
     (if n \<le> 0 then rawHarmonicLoop ns (sm, registersUsed)
      else rawHarmonicLoop ns (sm + 2 powr (real (unat n) * - 1), registersUsed + 1))"

definition rawHarmonicEstimate :: "sketch \<Rightarrow> error + uint64" where
  "rawHarmonicEstimate s =
     (let (sm, registersUsed) = rawHarmonicLoop (registers s) (0, 0)
      in if registersUsed \<le> 0 then Inr 0
         else uint64_of_f64 (fdiv (alpha * registersUsed * registersUsed) sm))"

text \<open>
  The loop of \<^verbatim>\<open>linearCounting\<close>: its variable \<^verbatim>\<open>registersUsed\<close> counts the registers that
  are zero.
\<close>

fun linearCountingLoop :: "uint8 list \<Rightarrow> real \<Rightarrow> real" where
  "linearCountingLoop [] registersUsed = registersUsed"
| "linearCountingLoop (n # ns) registersUsed =
     (if n \<le> 0 then linearCountingLoop ns (registersUsed + 1)
      else linearCountingLoop ns registersUsed)"

text \<open>The \<^verbatim>\<open>float64\<close> that \<^verbatim>\<open>linearCounting\<close> converts: \<^verbatim>\<open>mf * math.Log(mf/registersUsed)\<close>.\<close>

definition linearCountingValue :: "sketch \<Rightarrow> f64" where
  "linearCountingValue s =
     (let registersUsed = linearCountingLoop (registers s) 0
      in fmul mf (flog (fdiv mf registersUsed)))"

definition linearCounting :: "sketch \<Rightarrow> error + uint64" where
  "linearCounting s = uint64_of_f64 (linearCountingValue s)"

text \<open>
  \<^verbatim>\<open>Estimate\<close>. The conversion \<^verbatim>\<open>int(rawEstimate)\<close> reads the 64 bits as a signed number, and
  \<^verbatim>\<open>float64(rawEstimate)\<close> is the value of the unsigned one.
\<close>

definition Estimate :: "sketch \<Rightarrow> error + uint64" where
  "Estimate s =
     (case rawHarmonicEstimate s of
        Inl e \<Rightarrow> Inl e
      | Inr rawEstimate \<Rightarrow>
          if rawEstimate > maxTick (biasSet s) then Inr rawEstimate
          else if rawEstimate < maxLinearCounting then linearCounting s
          else uint64_of_f64
                 (Finite (getInterpolatedBias (biasSet s) (sint rawEstimate)
                          * real (unat rawEstimate))))"

subsection \<open>The estimator in the words of the specification\<close>

definition registersUsed_spec :: "sketch \<Rightarrow> nat" where
  "registersUsed_spec s = length (filter (\<lambda>n. n \<noteq> 0) (registers s))"

definition numZeroRegisters :: "sketch \<Rightarrow> nat" where
  "numZeroRegisters s = length (filter (\<lambda>n. n = 0) (registers s))"

definition harmonicSum_spec :: "sketch \<Rightarrow> real" where
  "harmonicSum_spec s =
     (\<Sum>n\<leftarrow>filter (\<lambda>n. n \<noteq> 0) (registers s). 2 powr (- real (unat n)))"

text \<open>
  \<open>floor_uint64 x\<close> is the floor of \<open>x\<close> when that is an unsigned 64-bit number (see
  \<open>floor_uint64_floor\<close> below).
\<close>

definition floor_uint64 :: "real \<Rightarrow> error + uint64" where
  "floor_uint64 x = uint64_of_f64 (Finite x)"

definition rawEstimate_spec :: "sketch \<Rightarrow> error + uint64" where
  "rawEstimate_spec s =
     (if registersUsed_spec s = 0 then Inr 0
      else floor_uint64 (alpha * (real (registersUsed_spec s))\<^sup>2 / harmonicSum_spec s))"



section \<open>Merge\<close>

text \<open>
  \<^verbatim>\<open>Merge\<close> writes the registers of its receiver and reads those of \<^verbatim>\<open>other\<close>, and the two may
  be one object: sketches live in a store, at references. \<^verbatim>\<open>Merge\<close> returns the store after
  the call, and the error or the returned sketch, which is the receiver.
\<close>

type_synonym ref = nat
type_synonym store = "ref \<Rightarrow> sketch"

text \<open>
  The loop \<^verbatim>\<open>for i, thisZeros := range s.registers\<close>, over the indices still to visit. Both
  slices have the same length when it runs.
\<close>

fun MergeLoop :: "store \<Rightarrow> ref \<Rightarrow> ref \<Rightarrow> nat list \<Rightarrow> store" where
  "MergeLoop h s other [] = h"
| "MergeLoop h s other (i # is) =
     (let thisZeros = registers (h s) ! i;
          otherZeros = registers (h other) ! i
      in if otherZeros > thisZeros
         then MergeLoop (h(s := (h s)\<lparr>registers := (registers (h s))[i := otherZeros]\<rparr>)) s other is
         else MergeLoop h s other is)"

definition Merge :: "store \<Rightarrow> ref \<Rightarrow> ref \<Rightarrow> store \<times> (error + ref)" where
  "Merge h s other =
     (if version (h s) \<noteq> version (h other) then (h, Inl ErrorMismatchedVersion)
      else if length (registers (h s)) \<noteq> length (registers (h other))
        then (h, Inl ErrorMalformedPrecision)
      else (MergeLoop h s other [0..<length (registers (h s))], Inr s))"


section \<open>Rollup\<close>

text \<open>The validation loop of \<^verbatim>\<open>Rollup\<close> over \<^verbatim>\<open>sketches[1:]\<close>.\<close>

fun rollupValidate :: "string \<Rightarrow> nat \<Rightarrow> sketch list \<Rightarrow> error option" where
  "rollupValidate firstVersion firstLen [] = None"
| "rollupValidate firstVersion firstLen (sk # sks) =
     (if version sk \<noteq> firstVersion then Some ErrorRollupVersion
      else if length (registers sk) \<noteq> firstLen then Some ErrorRollupPrecision
      else rollupValidate firstVersion firstLen sks)"

text \<open>The inner loop: the highest entry at index \<open>i\<close>; \<^verbatim>\<open>reg[i]\<close> panics out of range.\<close>

fun rollupMax :: "uint8 \<Rightarrow> uint8 list list \<Rightarrow> nat \<Rightarrow> error + uint8" where
  "rollupMax mx [] i = Inr mx"
| "rollupMax mx (reg # regs) i =
     (if \<not> i < length reg then Inl PanicIndexOutOfRange
      else if mx < reg ! i then rollupMax (reg ! i) regs i
      else rollupMax mx regs i)"

text \<open>The outer loop over the indices of \<^verbatim>\<open>base.registers\<close> still to visit.\<close>

fun rollupLoop :: "uint8 list \<Rightarrow> uint8 list list \<Rightarrow> nat list \<Rightarrow> error + uint8 list" where
  "rollupLoop base regs [] = Inr base"
| "rollupLoop base regs (i # is) =
     (case rollupMax 0 regs i of
        Inl e \<Rightarrow> Inl e
      | Inr mx \<Rightarrow> rollupLoop (base[i := mx]) regs is)"

text \<open>
  \<^verbatim>\<open>Rollup\<close> only reads its arguments and returns a sketch it creates: it is a function of the
  states of the sketches of the list.
\<close>

definition Rollup :: "biases \<Rightarrow> sketch list \<Rightarrow> error + sketch" where
  "Rollup db sketches =
     (case sketches of
        [] \<Rightarrow> Inl ErrorRollupEmpty
      | first # rest \<Rightarrow>
          (case rollupValidate (version first) (length (registers first)) rest of
             Some e \<Rightarrow> Inl e
           | None \<Rightarrow>
               (let base0 = createSketch db;
                    base = (if version base0 \<noteq> version first
                            then base0\<lparr>version := version first\<rparr> else base0)
                in case rollupLoop (registers base) (map registers sketches)
                          [0..<length (registers base)] of
                     Inl e \<Rightarrow> Inl e
                   | Inr rs \<Rightarrow> Inr (base\<lparr>registers := rs\<rparr>))))"


section \<open>Serialization\<close>

text \<open>
  The message \<^verbatim>\<open>hllProto.Sketch\<close>, with the two fields the code reads and writes. The encoder
  \<^verbatim>\<open>proto.Marshal\<close> and the decoder \<^verbatim>\<open>proto.Unmarshal\<close> belong to an external library: they are
  the parameters \<open>marshal\<close> and \<open>unmarshal\<close>. The code hands the encoded payload on and never
  looks into it, except for the test against \<^verbatim>\<open>nil\<close>: the payload has the type \<open>'w\<close> of what the
  codec writes (\<open>byte list\<close> for \<^verbatim>\<open>[]byte\<close>), and a payload that may be \<^verbatim>\<open>nil\<close> is an option.
\<close>

record pb_Sketch =
  Version :: string
  Registers :: "uint32 list"

definition ProtoSerialize :: "(pb_Sketch \<Rightarrow> error + 'w) \<Rightarrow> sketch \<Rightarrow> error + 'w" where
  "ProtoSerialize marshal s =
     marshal \<lparr>Version = version s, Registers = map ucast (registers s)\<rparr>"

text \<open>
  The loop \<^verbatim>\<open>s.registers[i] = uint8(registerpb)\<close> of \<^verbatim>\<open>ProtoDeserialize\<close>, from index \<open>i\<close> on;
  the index expression panics out of range.
\<close>

fun copyRegisters :: "uint8 list \<Rightarrow> nat \<Rightarrow> uint32 list \<Rightarrow> error + uint8 list" where
  "copyRegisters regs i [] = Inr regs"
| "copyRegisters regs i (registerpb # rest) =
     (if \<not> i < length regs then Inl PanicIndexOutOfRange
      else copyRegisters (regs[i := ucast registerpb]) (Suc i) rest)"

definition ProtoDeserialize ::
  "('w \<Rightarrow> error + pb_Sketch) \<Rightarrow> biases \<Rightarrow> 'w option \<Rightarrow> error + sketch" where
  "ProtoDeserialize unmarshal db protoBs =
     (case protoBs of
        None \<Rightarrow> Inl ErrorNilProto
      | Some bs \<Rightarrow>
          (case unmarshal bs of
             Inl err \<Rightarrow> Inl err
           | Inr sketchpb \<Rightarrow>
               (let s = (createSketch db)\<lparr>version := Version sketchpb\<rparr>
                in case copyRegisters (registers s) 0 (Registers sketchpb) of
                     Inl e \<Rightarrow> Inl e
                   | Inr rs \<Rightarrow> Inr (s\<lparr>registers := rs\<rparr>))))"


section \<open>Generation of biases\<close>

text \<open>
  The options of \<^verbatim>\<open>GenerateBiases\<close>. The field \<^verbatim>\<open>StepRate\<close> is a finite \<^verbatim>\<open>float64\<close>, given by a real
  number: where the code reads it, the number is read as the \<^verbatim>\<open>float64\<close> nearest to it
  (\<open>float64_of_real\<close> below), which is the number itself when it is a \<^verbatim>\<open>float64\<close>.
\<close>

record GenerationOptions =
  MaxCardinality :: uint64
  Repeats :: int
  InitialStep :: int
  StepRate :: real

definition DefaultGenerationOptions :: GenerationOptions where
  "DefaultGenerationOptions =
     \<lparr>MaxCardinality = word_of_nat m * 7, Repeats = 5000, InitialStep = 50, StepRate = 1.25\<rparr>"

text \<open>
  The \<^verbatim>\<open>float64\<close> arithmetic of \<^verbatim>\<open>calculateInterpolationPoints\<close>, with the rounding of IEEE 754
  binary64 (round to nearest, ties to even): 53 significant bits, the exponent of a
  normal number from -1022 on, and below it the subnormal numbers on the grid of
  \<^verbatim>\<open>2^-1074\<close>.

  \<open>floorLog2 x\<close> is the exponent \<open>e\<close> of a positive \<open>x\<close>: \<open>2^e \<le> x < 2^(e+1)\<close>.
\<close>

definition floorLog2 :: "real \<Rightarrow> int" where
  "floorLog2 x = (if 1 \<le> x then bitlen \<lfloor>x\<rfloor> - 1 else - bitlen (\<lceil>1 / x\<rceil> - 1))"

definition roundHalfEven :: "real \<Rightarrow> int" where
  "roundHalfEven q =
     (let f = \<lfloor>q\<rfloor>; d = q - of_int f
      in if d < 1 / 2 then f else if 1 / 2 < d then f + 1 else if even f then f else f + 1)"

text \<open>
  The \<^verbatim>\<open>float64\<close> nearest to a real number, as long as the exponent does not overflow. It is
  the identity on the values of the type \<^verbatim>\<open>float64\<close>, and it is how a decimal constant of a Go
  program (\<^verbatim>\<open>1.15\<close>) is read.
\<close>

definition float64_of_real :: "real \<Rightarrow> real" where
  "float64_of_real x =
     (if x = 0 then 0
      else let e = max (floorLog2 \<bar>x\<bar>) (- 1022);
               ulp = 2 powi (e - 52)
           in of_int (roundHalfEven (x / ulp)) * ulp)"

text \<open>The rounded result of an operation, with overflow to the infinities.\<close>

definition f64_of_real :: "real \<Rightarrow> f64" where
  "f64_of_real x =
     (let y = float64_of_real x
      in if 2 ^ 1024 \<le> y then PosInf else if y \<le> - (2 ^ 1024) then NegInf else Finite y)"

text \<open>The conversion \<^verbatim>\<open>float64(step)\<close> of a \<^verbatim>\<open>uint64\<close>; it rounds above \<^verbatim>\<open>2^53\<close>.\<close>

definition float64_of_uint64 :: "uint64 \<Rightarrow> real" where
  "float64_of_uint64 w = float64_of_real (real_of_int (uint w))"

text \<open>The product \<^verbatim>\<open>x * y\<close> of two finite \<^verbatim>\<open>float64\<close> values.\<close>

definition fmul64 :: "real \<Rightarrow> real \<Rightarrow> f64" where
  "fmul64 x y = f64_of_real (x * y)"

text \<open>
  The loop of \<^verbatim>\<open>calculateInterpolationPoints\<close>, from the state of its variables \<^verbatim>\<open>i\<close>, \<^verbatim>\<open>step\<close>,
  \<^verbatim>\<open>nextStepChange\<close> and \<^verbatim>\<open>ticks\<close>. It need not end: \<open>None\<close> is a run that never leaves the
  loop. The parameter \<^verbatim>\<open>stepRate\<close> is a finite \<^verbatim>\<open>float64\<close>, read like the field \<^verbatim>\<open>StepRate\<close>.
\<close>

partial_function (option) interpolationLoop ::
  "uint64 \<Rightarrow> real \<Rightarrow> uint64 \<Rightarrow> uint64 \<Rightarrow> uint64 \<Rightarrow> uint64 \<Rightarrow> uint64 list
     \<Rightarrow> (error + uint64 list) option" where
  "interpolationLoop maxCardinality stepRate rangeLength i step nextStepChange ticks =
     (if i < maxCardinality then
        (if i > nextStepChange then
           (case uint64_of_f64 (fmul64 (float64_of_uint64 step) (float64_of_real stepRate)) of
              Inl e \<Rightarrow> Some (Inl e)
            | Inr step' \<Rightarrow>
                interpolationLoop maxCardinality stepRate rangeLength (i + step') step'
                  (nextStepChange + rangeLength) (ticks @ [i]))
         else interpolationLoop maxCardinality stepRate rangeLength (i + step) step
                nextStepChange (ticks @ [i]))
      else Some (Inr ticks))"

declare interpolationLoop.simps [code]

text \<open>
  \<^verbatim>\<open>calculateInterpolationPoints\<close>: \<^verbatim>\<open>uint64(initialStep)\<close> keeps the low 64 bits, and the
  slice expression \<^verbatim>\<open>ticks[1:]\<close> panics on an empty slice.
\<close>

definition calculateInterpolationPoints ::
  "uint64 \<Rightarrow> int \<Rightarrow> real \<Rightarrow> (error + uint64 list) option" where
  "calculateInterpolationPoints maxCardinality initialStep stepRate =
     (let rangeLength = maxCardinality div 10;
          step = word_of_int initialStep;
          nextStepChange = rangeLength
      in case interpolationLoop maxCardinality stepRate rangeLength 0 step nextStepChange [] of
           None \<Rightarrow> None
         | Some (Inl e) \<Rightarrow> Some (Inl e)
         | Some (Inr ticks) \<Rightarrow>
             (if ticks = [] then Some (Inl PanicIndexOutOfRange) else Some (Inr (tl ticks))))"

text \<open>
  \<^verbatim>\<open>GenerateBiases\<close>: the checks of its arguments and the computation of the interpolation
  points. What follows in the source (the generation of the sets from \<^verbatim>\<open>fn\<close> and the
  simulation over them) runs after \<^verbatim>\<open>calculateInterpolationPoints\<close> has returned; it is the
  parameter \<open>simulate\<close>, a computation that may not return either. The argument \<^verbatim>\<open>fn\<close> is
  present or \<^verbatim>\<open>nil\<close>, and so is \<^verbatim>\<open>options\<close>.
\<close>

definition GenerateBiases ::
  "(GenerationOptions \<Rightarrow> uint64 list \<Rightarrow> 'r option) \<Rightarrow> bool \<Rightarrow> GenerationOptions option
     \<Rightarrow> (error + 'r) option" where
  "GenerateBiases simulate fn_is_nil options0 =
     (let options = (case options0 of None \<Rightarrow> DefaultGenerationOptions | Some opts \<Rightarrow> opts)
      in if fn_is_nil then Some (Inl (ErrorInvalidOptions ''invalid fn: must not be nil''))
         else if MaxCardinality options \<le> word_of_nat m
           then Some (Inl (ErrorInvalidOptions
                  ''invalid options: maxCardinality must be greater than m''))
         else if Repeats options \<le> 0
           then Some (Inl (ErrorInvalidOptions
                  ''invalid options: repeats must be greater than 0''))
         else if InitialStep options \<le> 0
           then Some (Inl (ErrorInvalidOptions ''invalid options: step must be greater than 0''))
         else if float64_of_real (StepRate options) \<le> 0
           then Some (Inl (ErrorInvalidOptions
                  ''invalid options: step rate must be greater than 0''))
         else
           (case calculateInterpolationPoints (MaxCardinality options) (InitialStep options)
                   (StepRate options) of
              None \<Rightarrow> None
            | Some (Inl e) \<Rightarrow> Some (Inl e)
            | Some (Inr cardinalities) \<Rightarrow>
                (case simulate options cardinalities of
                   None \<Rightarrow> None
                 | Some results \<Rightarrow> Some (Inr results))))"


section \<open>Properties of Insert\<close>


lemma len_nat_less_iff: "len_nat n \<le> k \<longleftrightarrow> n < 2 ^ k"
proof (induction n arbitrary: k rule: len_nat.induct)
  case (1 n)
  show ?case
  proof (cases "n = 0")
    case True
    then show ?thesis by (simp add: len_nat.simps)
  next
    case False
    show ?thesis
    proof (cases k)
      case 0
      with False show ?thesis by (simp add: len_nat.simps)
    next
      case (Suc k')
      have "len_nat n \<le> Suc k' \<longleftrightarrow> len_nat (n div 2) \<le> k'"
        using False by (subst len_nat.simps) simp
      also have "\<dots> \<longleftrightarrow> n div 2 < 2 ^ k'"
        using "1.IH" [OF False] .
      also have "\<dots> \<longleftrightarrow> n < 2 ^ Suc k'"
        by auto
      finally show ?thesis using Suc by simp
    qed
  qed
qed

lemma countLeadingZeroBits_Suc:
  "countLeadingZeroBits (Suc w) x = (if bit x w then 0 else Suc (countLeadingZeroBits w x))"
  by (simp add: countLeadingZeroBits_def)

lemma countLeadingZeroBits_Len64:
  "unat x < 2 ^ w \<Longrightarrow> countLeadingZeroBits w x = w - Len64 x"
proof (induction w)
  case 0
  then show ?case by (simp add: countLeadingZeroBits_def)
next
  case (Suc w)
  show ?case
  proof (cases "bit x w")
    case True
    then have "bit (unat x) w" by (simp add: bit_unsigned_iff)
    then have "\<not> unat x < 2 ^ w"
      by (metis bit_iff_odd div_less even_zero)
    then have "\<not> len_nat (unat x) \<le> w" by (simp add: len_nat_less_iff)
    moreover have "len_nat (unat x) \<le> Suc w" using Suc.prems by (simp add: len_nat_less_iff)
    ultimately show ?thesis using True
      by (simp add: countLeadingZeroBits_Suc Len64_def)
  next
    case False
    then have nb: "\<not> bit (unat x) w" by (simp add: bit_unsigned_iff)
    have "unat x < 2 ^ w"
    proof (rule ccontr)
      assume "\<not> unat x < 2 ^ w"
      then have "2 ^ w \<le> unat x" by simp
      with Suc.prems have "unat x div 2 ^ w = 1"
        by (simp add: div_nat_eqI)
      then show False using nb by (simp add: bit_iff_odd)
    qed
    then have "countLeadingZeroBits w x = w - Len64 x" and "Len64 x \<le> w"
      using Suc.IH by (simp_all add: Len64_def len_nat_less_iff)
    then show ?thesis using False by (simp add: countLeadingZeroBits_Suc)
  qed
qed

lemma bitMask_eq: "bitMask = mask 50"
  by (simp add: bitMask_def remnant_def hashLength_def precision_def mask_eq_exp_minus_1)

lemma and_bitMask: "h AND bitMask = take_bit 50 h"
  by (simp add: bitMask_eq take_bit_eq_mask)

lemma unat_take_bit_50: "unat (take_bit 50 (h::uint64)) < 2 ^ 50"
  unfolding unsigned_take_bit_eq by (rule take_bit_nat_less_exp)

lemma LeadingZeros_remnant:
  "LeadingZeros (take_bit 50 h) = 14 + countLeadingZeroBits 50 (take_bit 50 h)"
proof -
  have "Len64 (take_bit 50 h) \<le> 50"
    using unat_take_bit_50 [of h] by (simp add: Len64_def len_nat_less_iff)
  then show ?thesis
    using countLeadingZeroBits_Len64 [OF unat_take_bit_50, of h]
    by (simp add: LeadingZeros_def)
qed

lemma countLeadingZeroBits_le: "countLeadingZeroBits w x \<le> w"
  unfolding countLeadingZeroBits_def
  by (metis length_rev length_takeWhile_le length_upt diff_zero)

lemma getRegisterAndLeadingZeros_eq:
  "getRegisterAndLeadingZeros h =
     (drop_bit 50 h, word_of_nat (countLeadingZeroBits 50 (take_bit 50 h)))"
  by (simp add: getRegisterAndLeadingZeros_def and_bitMask LeadingZeros_remnant
      remnant_def hashLength_def precision_def)

lemma unat_drop_bit_50: "unat (drop_bit 50 (h::uint64)) < 2 ^ 14"
proof -
  have "unat h < 2 ^ 64" using unsigned_less [of h] by simp
  then have "unat h div 2 ^ 50 < 2 ^ 14"
    by (simp add: less_mult_imp_div_less)
  then show ?thesis unfolding unat_drop_bit_eq by (simp add: drop_bit_eq_div)
qed


lemma addHash_eq:
  "addHash s h =
     (let index = unat (drop_bit 50 h);
          z = (word_of_nat (countLeadingZeroBits 50 (take_bit 50 h) + 1) :: uint8)
      in if index < length (registers s)
         then Inr (s\<lparr>registers := (registers s)[index := max (registers s ! index) z]\<rparr>)
         else Inl PanicIndexOutOfRange)"
proof -
  define i where "i = unat (drop_bit 50 h)"
  define z :: uint8 where "z = word_of_nat (countLeadingZeroBits 50 (take_bit 50 h)) + 1"
  have z: "word_of_nat (countLeadingZeroBits 50 (take_bit 50 h) + 1) = z"
    by (simp add: z_def)
  have a: "addHash s h =
     (if \<not> i < length (registers s) then Inl PanicIndexOutOfRange
      else if registers s ! i \<ge> z then Inr s
      else Inr (s\<lparr>registers := (registers s)[i := z]\<rparr>))"
    by (simp add: addHash_def getRegisterAndLeadingZeros_eq Let_def i_def z_def)
  have "z \<le> registers s ! i \<Longrightarrow> s\<lparr>registers := (registers s)[i := max (registers s ! i) z]\<rparr> = s"
    by (simp add: max_def)
  moreover have "\<not> z \<le> registers s ! i \<Longrightarrow> max (registers s ! i) z = z"
    by (auto simp add: max_def)
  ultimately show ?thesis
    unfolding a Let_def z i_def [symmetric] by auto
qed

lemma unat_z:
  "unat (word_of_nat (countLeadingZeroBits 50 x + 1) :: uint8) = countLeadingZeroBits 50 x + 1"
proof -
  have "countLeadingZeroBits 50 x + 1 < 2 ^ 8"
    using countLeadingZeroBits_le [of 50 x] by simp
  then show ?thesis
    by (simp only: unat_of_nat) (simp add: take_bit_nat_eq_self)
qed

text \<open>
  Claim C3. For every element, \<open>Insert\<close> takes the hash \<open>h\<close> of the element, uses the top 14
  bits of \<open>h\<close> as the register index (\<open>h\<close> shifted right by 50, below \<open>m = 16384\<close>), computes
  \<open>z\<close> as the number of leading zero bits of the low 50 bits of \<open>h\<close>, counted in a window of
  exactly 50 bits, plus 1, and sets the register at the index to the maximum of its value
  and \<open>z\<close>; the list update leaves every other register as it was. The index expression
  panics on a sketch that has no register at the index; a sketch of \<open>m\<close> registers has one.
\<close>

theorem Insert_updates_one_register:
  "let h = hash element;
       index = unat (drop_bit 50 h);
       z = (word_of_nat (countLeadingZeroBits 50 (take_bit 50 h) + 1) :: uint8)
   in index = unat h div 2 ^ 50 \<and> index < m
      \<and> unat z = countLeadingZeroBits 50 (take_bit 50 h) + 1
      \<and> Insert hash s element =
          (if index < length (registers s)
           then Inr (s\<lparr>registers := (registers s)[index := max (registers s ! index) z]\<rparr>)
           else Inl PanicIndexOutOfRange)
      \<and> (wf_sketch s \<longrightarrow>
           Insert hash s element =
             Inr (s\<lparr>registers := (registers s)[index := max (registers s ! index) z]\<rparr>))"
proof -
  define h where "h = hash element"
  define index where "index = unat (drop_bit 50 h)"
  define z :: uint8 where "z = word_of_nat (countLeadingZeroBits 50 (take_bit 50 h) + 1)"
  have i: "index < m"
    using unat_drop_bit_50 [of h] by (simp add: index_def m_def precision_def)
  have d: "index = unat h div 2 ^ 50"
    unfolding index_def unat_drop_bit_eq by (simp add: drop_bit_eq_div)
  have uz: "unat z = countLeadingZeroBits 50 (take_bit 50 h) + 1"
    unfolding z_def by (rule unat_z)
  have ins: "Insert hash s element =
          (if index < length (registers s)
           then Inr (s\<lparr>registers := (registers s)[index := max (registers s ! index) z]\<rparr>)
           else Inl PanicIndexOutOfRange)"
    by (simp add: Insert_def addHash_eq Let_def h_def index_def z_def)
  have "Insert hash s element =
      Inr (s\<lparr>registers := (registers s)[index := max (registers s ! index) z]\<rparr>)"
    if "wf_sketch s"
    using that i ins by (simp add: wf_sketch_def)
  then show ?thesis
    unfolding Let_def h_def [symmetric] index_def [symmetric] z_def [symmetric]
    using d i uz ins by simp
qed

lemma countLeadingZeroBits_one: "countLeadingZeroBits 50 1 = 49"
  using countLeadingZeroBits_Len64 [of 1 50] by (simp add: Len64_def len_nat.simps)

text \<open>
  An instance of C3: the hash \<^verbatim>\<open>2^50 + 1\<close> has index 1 and remnant 1, which has 49 leading zero bits
  in 50, so register 1 of an empty sketch becomes 50.
\<close>

theorem Insert_updates_one_register_witness:
  "wf_sketch (createSketch \<lparr>maxTick = 100000, getInterpolatedBias = (\<lambda>x. 1)\<rparr>)
   \<and> Insert (\<lambda>e. 2 ^ 50 + 1) (createSketch \<lparr>maxTick = 100000, getInterpolatedBias = (\<lambda>x. 1)\<rparr>) []
       = Inr \<lparr>biasSet = \<lparr>maxTick = 100000, getInterpolatedBias = (\<lambda>x. 1)\<rparr>,
              registers = (replicate 16384 0)[1 := 50], version = ''1''\<rparr>"
proof -
  let ?s = "createSketch \<lparr>maxTick = 100000, getInterpolatedBias = (\<lambda>x. 1)\<rparr>"
  have wf: "wf_sketch ?s"
    by (simp add: wf_sketch_def createSketch_def)
  have d: "drop_bit 50 (2 ^ 50 + 1 :: uint64) = 1"
    by (simp add: drop_bit_eq_div)
  have t: "take_bit 50 (2 ^ 50 + 1 :: uint64) = 1"
    by (simp add: take_bit_eq_mod)
  show ?thesis
    using Insert_updates_one_register [of "\<lambda>e. 2 ^ 50 + 1" "[]" ?s] wf
    by (simp add: Let_def d t countLeadingZeroBits_one createSketch_def m_def precision_def
        currentVersion_def del: drop_bit_numeral_bit0 take_bit_numeral_bit0)
qed


section \<open>Properties of Merge\<close>


lemma MergeLoop_frame: "r \<noteq> s \<Longrightarrow> MergeLoop h s other is r = h r"
  by (induction "is" arbitrary: h) (simp_all add: Let_def)

lemma MergeLoop_version: "version (MergeLoop h s other is s) = version (h s)"
  by (induction "is" arbitrary: h) (simp_all add: Let_def)

lemma MergeLoop_biasSet: "biasSet (MergeLoop h s other is s) = biasSet (h s)"
  by (induction "is" arbitrary: h) (simp_all add: Let_def)

lemma MergeLoop_length:
  "length (registers (MergeLoop h s other is s)) = length (registers (h s))"
  by (induction "is" arbitrary: h) (simp_all add: Let_def)

lemma MergeLoop_self: "MergeLoop h s s is = h"
  by (induction "is" arbitrary: h) (simp_all add: Let_def)

lemma MergeLoop_nth:
  "s \<noteq> other \<Longrightarrow> distinct is \<Longrightarrow> j < length (registers (h s)) \<Longrightarrow>
   registers (MergeLoop h s other is s) ! j =
     (if j \<in> set is then max (registers (h s) ! j) (registers (h other) ! j)
      else registers (h s) ! j)"
proof (induction "is" arbitrary: h)
  case Nil
  then show ?case by simp
next
  case (Cons i "is")
  let ?h' = "h(s := (h s)\<lparr>registers := (registers (h s))[i := registers (h other) ! i]\<rparr>)"
  show ?case
  proof (cases "registers (h other) ! i > registers (h s) ! i")
    case True
    have ih: "registers (MergeLoop ?h' s other is s) ! j =
       (if j \<in> set is then max (registers (?h' s) ! j) (registers (?h' other) ! j)
        else registers (?h' s) ! j)"
      using Cons.prems by (intro Cons.IH) simp_all
    have step: "MergeLoop h s other (i # is) = MergeLoop ?h' s other is"
      using True by (simp add: Let_def)
    show ?thesis
    proof (cases "j = i")
      case eq: True
      then have "j \<notin> set is" using Cons.prems by simp
      then show ?thesis
        using ih eq True Cons.prems unfolding step by (auto simp add: max_def)
    next
      case neq: False
      then show ?thesis
        using ih Cons.prems unfolding step by simp
    qed
  next
    case False
    have ih: "registers (MergeLoop h s other is s) ! j =
       (if j \<in> set is then max (registers (h s) ! j) (registers (h other) ! j)
        else registers (h s) ! j)"
      using Cons.prems by (intro Cons.IH) simp_all
    have step: "MergeLoop h s other (i # is) = MergeLoop h s other is"
      using False by (simp add: Let_def)
    show ?thesis
    proof (cases "j = i")
      case eq: True
      then have "j \<notin> set is" using Cons.prems by simp
      then show ?thesis
        using ih eq False unfolding step by (auto simp add: max_def)
    next
      case neq: False
      then show ?thesis
        using ih unfolding step by simp
    qed
  qed
qed

lemma MergeLoop_registers:
  assumes "length (registers (h s)) = length (registers (h other))"
  shows "registers (MergeLoop h s other [0..<length (registers (h s))] s) =
         map2 max (registers (h s)) (registers (h other))"
proof (cases "s = other")
  case True
  have "map2 max xs xs = xs" for xs :: "uint8 list"
    by (induction xs) simp_all
  with True show ?thesis by (simp add: MergeLoop_self)
next
  case False
  show ?thesis
  proof (rule nth_equalityI)
    show "length (registers (MergeLoop h s other [0..<length (registers (h s))] s)) =
          length (map2 max (registers (h s)) (registers (h other)))"
      using assms by (simp add: MergeLoop_length)
  next
    fix j assume "j < length (registers (MergeLoop h s other [0..<length (registers (h s))] s))"
    then have j: "j < length (registers (h s))" by (simp add: MergeLoop_length)
    then show "registers (MergeLoop h s other [0..<length (registers (h s))] s) ! j =
               map2 max (registers (h s)) (registers (h other)) ! j"
      using assms False by (simp add: MergeLoop_nth)
  qed
qed

lemma MergeLoop_eq:
  assumes "length (registers (h s)) = length (registers (h other))"
  shows "MergeLoop h s other [0..<length (registers (h s))] =
         h(s := (h s)\<lparr>registers := map2 max (registers (h s)) (registers (h other))\<rparr>)"
proof
  fix r
  show "MergeLoop h s other [0..<length (registers (h s))] r =
        (h(s := (h s)\<lparr>registers := map2 max (registers (h s)) (registers (h other))\<rparr>)) r"
  proof (cases "r = s")
    case True
    have "MergeLoop h s other [0..<length (registers (h s))] s =
          (h s)\<lparr>registers := map2 max (registers (h s)) (registers (h other))\<rparr>"
      by (rule sketch.equality)
        (simp_all add: MergeLoop_registers [OF assms] MergeLoop_version MergeLoop_biasSet)
    with True show ?thesis by simp
  next
    case False
    then show ?thesis by (simp add: MergeLoop_frame)
  qed
qed

lemma Merge_eq:
  "Merge h s other =
     (if version (h s) \<noteq> version (h other) then (h, Inl ErrorMismatchedVersion)
      else if length (registers (h s)) \<noteq> length (registers (h other))
        then (h, Inl ErrorMalformedPrecision)
      else (h(s := (h s)\<lparr>registers := map2 max (registers (h s)) (registers (h other))\<rparr>),
            Inr s))"
proof (cases "length (registers (h s)) = length (registers (h other))")
  case True
  show ?thesis unfolding Merge_def MergeLoop_eq [OF True] by simp
next
  case False
  then show ?thesis unfolding Merge_def by simp
qed


lemma map2_max_nth:
  "length xs = length ys \<Longrightarrow> i < length xs \<Longrightarrow> map2 max xs ys ! i = max (xs ! i) (ys ! i)"
  by simp

text \<open>
  Claim C5. For every store and every two references \<open>a\<close> and \<open>b\<close>: when the versions differ,
  \<open>Merge\<close> returns the version-mismatch error; when the versions agree and the lengths of
  the register arrays differ, it returns the precision error; in both cases the store is
  the one before the call, so that every register of \<open>a\<close>, of \<open>b\<close> and of every other sketch
  is unchanged. Otherwise it returns \<open>a\<close>, register \<open>i\<close> of \<open>a\<close> is the maximum of the two
  registers \<open>i\<close> for every index, the version and the bias table of \<open>a\<close> stay, and no other
  sketch changes.
\<close>

theorem Merge_contract:
  "(version (h a) \<noteq> version (h b) \<longrightarrow> Merge h a b = (h, Inl ErrorMismatchedVersion))
   \<and> (version (h a) = version (h b) \<and> length (registers (h a)) \<noteq> length (registers (h b))
        \<longrightarrow> Merge h a b = (h, Inl ErrorMalformedPrecision))
   \<and> (version (h a) = version (h b) \<and> length (registers (h a)) = length (registers (h b))
        \<longrightarrow> (\<exists>h'. Merge h a b = (h', Inr a)
               \<and> length (registers (h' a)) = length (registers (h a))
               \<and> (\<forall>i < length (registers (h a)).
                     registers (h' a) ! i = max (registers (h a) ! i) (registers (h b) ! i))
               \<and> version (h' a) = version (h a)
               \<and> biasSet (h' a) = biasSet (h a)
               \<and> (\<forall>r. r \<noteq> a \<longrightarrow> h' r = h r)))"
  by (simp add: Merge_eq)

text \<open>
  Instances of the three cases of C5: a mismatched version, an empty register array against one
  of three registers, and a merge of \<^verbatim>\<open>[1, 5, 0]\<close> with \<^verbatim>\<open>[3, 2, 0]\<close>.
\<close>

theorem Merge_contract_witness:
  "let sa = \<lparr>biasSet = \<lparr>maxTick = 100000, getInterpolatedBias = (\<lambda>x. 1)\<rparr>,
              registers = [1, 5, 0], version = ''1''\<rparr>;
       sb = sa\<lparr>registers := [3, 2, 0]\<rparr>;
       sc = sa\<lparr>registers := []\<rparr>;
       sd = sa\<lparr>version := ''vTEST''\<rparr>;
       h = (\<lambda>r. sa)(1 := sb, 2 := sc, 3 := sd)
   in Merge h 0 3 = (h, Inl ErrorMismatchedVersion)
      \<and> Merge h 0 2 = (h, Inl ErrorMalformedPrecision)
      \<and> snd (Merge h 0 1) = Inr 0
      \<and> registers (fst (Merge h 0 1) 0) ! 0 = 3
      \<and> registers (fst (Merge h 0 1) 0) ! 1 = 5
      \<and> registers (fst (Merge h 0 1) 0) ! 2 = 0
      \<and> fst (Merge h 0 1) 1 = sb"
proof -
  define sa where "sa = \<lparr>biasSet = \<lparr>maxTick = 100000, getInterpolatedBias = (\<lambda>x. 1::real)\<rparr>,
              registers = [1, 5, 0 :: uint8], version = ''1''\<rparr>"
  define h :: store where
    "h = (\<lambda>r. sa)(1 := sa\<lparr>registers := [3, 2, 0]\<rparr>, 2 := sa\<lparr>registers := []\<rparr>,
           3 := sa\<lparr>version := ''vTEST''\<rparr>)"
  have v3: "version (h 0) \<noteq> version (h 3)" by (simp add: h_def sa_def)
  have v2: "version (h 0) = version (h 2) \<and> length (registers (h 0)) \<noteq> length (registers (h 2))"
    by (simp add: h_def sa_def)
  have v1: "version (h 0) = version (h 1) \<and> length (registers (h 0)) = length (registers (h 1))"
    by (simp add: h_def sa_def)
  have m3: "Merge h 0 3 = (h, Inl ErrorMismatchedVersion)"
    using Merge_contract [of h 0 3] v3 by blast
  have m2: "Merge h 0 2 = (h, Inl ErrorMalformedPrecision)"
    using Merge_contract [of h 0 2] v2 by blast
  obtain h' where h': "Merge h 0 1 = (h', Inr 0)"
    "\<forall>i < length (registers (h 0)). registers (h' 0) ! i = max (registers (h 0) ! i) (registers (h 1) ! i)"
    "\<forall>r. r \<noteq> 0 \<longrightarrow> h' r = h r"
    using Merge_contract [of h 0 1] v1 by blast
  have r0: "registers (h' 0) ! 0 = 3" "registers (h' 0) ! 1 = 5" "registers (h' 0) ! 2 = 0"
    using h'(2) by (simp_all add: h_def sa_def)
  have f: "h' 1 = h 1" using h'(3) by simp
  show ?thesis
    unfolding Let_def sa_def [symmetric] h_def [symmetric]
    using m3 m2 h'(1) r0 f by (simp add: h_def)
qed

lemma map2_max_commute: "map2 max xs ys = map2 max ys (xs :: uint8 list)"
proof (induction xs arbitrary: ys)
  case Nil
  then show ?case by simp
next
  case (Cons x xs)
  then show ?case by (cases ys) (simp_all add: max.commute)
qed

lemma map2_max_assoc:
  "map2 max (map2 max xs ys) zs = map2 max xs (map2 max ys (zs :: uint8 list))"
proof (induction xs arbitrary: ys zs)
  case Nil
  then show ?case by simp
next
  case (Cons x xs)
  show ?case
  proof (cases ys)
    case Nil
    then show ?thesis by simp
  next
    case ys: (Cons y ys')
    show ?thesis
    proof (cases zs)
      case Nil
      then show ?thesis by simp
    next
      case (Cons z zs')
      then show ?thesis using ys Cons.IH by (simp add: max.assoc)
    qed
  qed
qed

text \<open>
  Claim C9. For compatible sketches at three different references (same version, same
  number of registers), all merges succeed; the registers of \<open>a\<close> after \<open>a.Merge(b)\<close> are
  those of \<open>b\<close> after \<open>b.Merge(a)\<close>, and the registers of \<open>a\<close> after \<open>a.Merge(b)\<close> followed by
  \<open>a.Merge(c)\<close> are those of \<open>a\<close> after \<open>b.Merge(c)\<close> followed by \<open>a.Merge(b)\<close>. Every side
  starts from the same store, that is, from fresh copies of the three sketches.
\<close>

theorem Merge_commutative_associative:
  "a \<noteq> b \<and> b \<noteq> c \<and> a \<noteq> c
   \<and> version (h a) = version (h b) \<and> version (h b) = version (h c)
   \<and> length (registers (h a)) = length (registers (h b))
   \<and> length (registers (h b)) = length (registers (h c))
   \<longrightarrow> snd (Merge h a b) = Inr a \<and> snd (Merge h b a) = Inr b
       \<and> registers (fst (Merge h a b) a) = registers (fst (Merge h b a) b)
       \<and> snd (Merge (fst (Merge h a b)) a c) = Inr a
       \<and> snd (Merge (fst (Merge h b c)) a b) = Inr a
       \<and> registers (fst (Merge (fst (Merge h a b)) a c) a)
           = registers (fst (Merge (fst (Merge h b c)) a b) a)"
  by (simp add: Merge_eq map2_max_commute [of "registers (h a)"] map2_max_assoc)


text \<open>
  An instance of C9 with the register arrays \<^verbatim>\<open>[1, 5, 0]\<close>, \<^verbatim>\<open>[3, 2, 0]\<close> and \<^verbatim>\<open>[0, 9, 1]\<close>.
\<close>

theorem Merge_commutative_associative_witness:
  "let sa = \<lparr>biasSet = \<lparr>maxTick = 100000, getInterpolatedBias = (\<lambda>x. 1)\<rparr>,
              registers = [1, 5, 0], version = ''1''\<rparr>;
       h = (\<lambda>r. sa)(1 := sa\<lparr>registers := [3, 2, 0]\<rparr>, 2 := sa\<lparr>registers := [0, 9, 1]\<rparr>)
   in registers (fst (Merge h 0 1) 0) = [3, 5, 0]
      \<and> registers (fst (Merge h 1 0) 1) = [3, 5, 0]
      \<and> registers (fst (Merge (fst (Merge h 0 1)) 0 2) 0) = [3, 9, 1]
      \<and> registers (fst (Merge (fst (Merge h 1 2)) 0 1) 0) = [3, 9, 1]"
proof -
  define sa where "sa = \<lparr>biasSet = \<lparr>maxTick = 100000, getInterpolatedBias = (\<lambda>x. 1::real)\<rparr>,
              registers = [1, 5, 0 :: uint8], version = ''1''\<rparr>"
  define h :: store where
    "h = (\<lambda>r. sa)(1 := sa\<lparr>registers := [3, 2, 0]\<rparr>, 2 := sa\<lparr>registers := [0, 9, 1]\<rparr>)"
  have hyp: "(0::nat) \<noteq> 1 \<and> (1::nat) \<noteq> 2 \<and> (0::nat) \<noteq> 2
     \<and> version (h 0) = version (h 1) \<and> version (h 1) = version (h 2)
     \<and> length (registers (h 0)) = length (registers (h 1))
     \<and> length (registers (h 1)) = length (registers (h 2))"
    by (simp add: h_def sa_def)
  have eqs: "registers (fst (Merge h 0 1) 0) = registers (fst (Merge h 1 0) 1)"
    "registers (fst (Merge (fst (Merge h 0 1)) 0 2) 0)
       = registers (fst (Merge (fst (Merge h 1 2)) 0 1) 0)"
    using Merge_commutative_associative [of 0 1 2 h] hyp by blast+
  have l: "registers (fst (Merge h 0 1) 0) = [3, 5, 0]"
    by (simp add: Merge_eq h_def sa_def)
  have r: "registers (fst (Merge (fst (Merge h 1 2)) 0 1) 0) = [3, 9, 1]"
    by (simp add: Merge_eq h_def sa_def)
  show ?thesis
    unfolding Let_def sa_def [symmetric] h_def [symmetric]
    using eqs l r by simp
qed


section \<open>Properties of Rollup\<close>


lemma rollupValidate_None:
  "\<forall>sk \<in> set sks. version sk = v \<and> length (registers sk) = n \<Longrightarrow> rollupValidate v n sks = None"
  by (induction sks) simp_all

lemma rollupMax_eq:
  "\<forall>reg \<in> set regs. i < length reg \<Longrightarrow>
   rollupMax mx regs i = Inr (Max (insert mx ((\<lambda>reg. reg ! i) ` set regs)))"
proof (induction regs arbitrary: mx)
  case Nil
  then show ?case by simp
next
  case (Cons reg regs)
  have fin: "finite ((\<lambda>reg. reg ! i) ` set regs)" by simp
  have ins: "insert mx (insert (reg ! i) ((\<lambda>reg. reg ! i) ` set regs))
             = insert (reg ! i) (insert mx ((\<lambda>reg. reg ! i) ` set regs))"
    by auto
  show ?case
  proof (cases "mx < reg ! i")
    case True
    then have "max (reg ! i) mx = reg ! i" by (auto simp add: max_def)
    then have "Max (insert (reg ! i) (insert mx ((\<lambda>reg. reg ! i) ` set regs)))
               = Max (insert (reg ! i) ((\<lambda>reg. reg ! i) ` set regs))"
      by (cases "regs = []") (simp_all add: max.assoc [symmetric] max.commute)
    then show ?thesis using True Cons by (simp add: ins)
  next
    case False
    then have "max (reg ! i) mx = mx" by (auto simp add: max_def)
    then have "Max (insert (reg ! i) (insert mx ((\<lambda>reg. reg ! i) ` set regs)))
               = Max (insert mx ((\<lambda>reg. reg ! i) ` set regs))"
      by (cases "regs = []") (simp_all add: max.assoc [symmetric])
    then show ?thesis using False Cons by (simp add: ins)
  qed
qed

lemma Max_insert_zero:
  "finite A \<Longrightarrow> A \<noteq> {} \<Longrightarrow> Max (insert (0::uint8) A) = Max A"
  by (simp add: max_def)

lemma rollupMax_zero:
  "regs \<noteq> [] \<Longrightarrow> \<forall>reg \<in> set regs. i < length reg \<Longrightarrow>
   rollupMax 0 regs i = Inr (Max ((\<lambda>reg. reg ! i) ` set regs))"
  by (simp add: rollupMax_eq Max_insert_zero)

lemma rollupMax_panic:
  "\<exists>reg \<in> set regs. \<not> i < length reg \<Longrightarrow> rollupMax mx regs i = Inl PanicIndexOutOfRange"
  by (induction regs arbitrary: mx) auto

lemma rollupLoop_eq:
  "\<forall>i \<in> set is. i < length base \<and> (\<forall>reg \<in> set regs. i < length reg) \<Longrightarrow> regs \<noteq> [] \<Longrightarrow>
   rollupLoop base regs is =
     Inr (map (\<lambda>j. if j \<in> set is then Max ((\<lambda>reg. reg ! j) ` set regs) else base ! j)
            [0..<length base])"
proof (induction "is" arbitrary: base)
  case Nil
  then show ?case by (simp add: map_nth)
next
  case (Cons i "is")
  let ?mx = "Max ((\<lambda>reg. reg ! i) ` set regs)"
  have mx: "rollupMax 0 regs i = Inr ?mx"
    using Cons.prems by (simp add: rollupMax_zero)
  have ih: "rollupLoop (base[i := ?mx]) regs is =
     Inr (map (\<lambda>j. if j \<in> set is then Max ((\<lambda>reg. reg ! j) ` set regs) else base[i := ?mx] ! j)
            [0..<length (base[i := ?mx])])"
    using Cons.prems by (intro Cons.IH) simp_all
  have "map (\<lambda>j. if j \<in> set is then Max ((\<lambda>reg. reg ! j) ` set regs) else base[i := ?mx] ! j)
            [0..<length (base[i := ?mx])]
        = map (\<lambda>j. if j \<in> set (i # is) then Max ((\<lambda>reg. reg ! j) ` set regs) else base ! j)
            [0..<length base]"
    using Cons.prems by (auto simp add: nth_list_update)
  then show ?case using mx ih by simp
qed

lemma rollupLoop_all:
  "regs \<noteq> [] \<Longrightarrow> \<forall>reg \<in> set regs. length base \<le> length reg \<Longrightarrow>
   rollupLoop base regs [0..<length base] =
     Inr (map (\<lambda>j. Max ((\<lambda>reg. reg ! j) ` set regs)) [0..<length base])"
proof -
  assume ne: "regs \<noteq> []" and len: "\<forall>reg \<in> set regs. length base \<le> length reg"
  have "\<forall>i \<in> set [0..<length base]. i < length base \<and> (\<forall>reg \<in> set regs. i < length reg)"
    using len by auto
  from rollupLoop_eq [OF this ne] show ?thesis
    by (simp cong: map_cong)
qed


lemma rollupLoop_panic:
  "\<exists>i \<in> set is. \<exists>reg \<in> set regs. \<not> i < length reg \<Longrightarrow>
   rollupLoop base regs is = Inl PanicIndexOutOfRange"
proof (induction "is" arbitrary: base)
  case Nil
  then show ?case by simp
next
  case (Cons i "is")
  show ?case
  proof (cases "\<exists>reg \<in> set regs. \<not> i < length reg")
    case True
    then show ?thesis by (simp add: rollupMax_panic)
  next
    case False
    then have "rollupMax 0 regs i = Inr (Max (insert 0 ((\<lambda>reg. reg ! i) ` set regs)))"
      by (intro rollupMax_eq) simp
    moreover have "\<exists>i \<in> set is. \<exists>reg \<in> set regs. \<not> i < length reg"
      using Cons.prems False by auto
    ultimately show ?thesis using Cons.IH by simp
  qed
qed

lemma Rollup_eq:
  assumes ne: "sketches \<noteq> []"
    and same: "\<forall>sk \<in> set sketches. version sk = v \<and> length (registers sk) = m"
  shows "Rollup db sketches =
    Inr \<lparr>biasSet = db,
         registers = map (\<lambda>j. Max ((\<lambda>sk. registers sk ! j) ` set sketches)) [0..<m],
         version = v\<rparr>"
proof -
  obtain first rest where sk: "sketches = first # rest"
    using ne by (cases sketches) auto
  have val: "rollupValidate (version first) (length (registers first)) rest = None"
    using same sk by (intro rollupValidate_None) simp
  have v: "version first = v" using same sk by simp
  have "rollupLoop (replicate m 0) (map registers sketches) [0..<length (replicate m (0::uint8))] =
        Inr (map (\<lambda>j. Max ((\<lambda>reg. reg ! j) ` set (map registers sketches)))
               [0..<length (replicate m (0::uint8))])"
    using ne same by (intro rollupLoop_all) simp_all
  then have loop: "rollupLoop (replicate m 0) (map registers sketches) [0..<m] =
        Inr (map (\<lambda>j. Max ((\<lambda>sk. registers sk ! j) ` set sketches)) [0..<m])"
    by (simp add: image_image)
  show ?thesis
    using val v loop unfolding Rollup_def sk [symmetric]
    by (simp add: sk createSketch_def Let_def)
qed

lemma Max_pair: "Max {x, y} = max x (y :: uint8)"
  by simp

text \<open>
  Claim C6. The sketches of the library have \<open>m\<close> registers (\<open>wf_sketch\<close>, which every
  operation of the package sets up and keeps). For every non-empty list of such sketches
  that share one version, \<open>Rollup\<close> succeeds and returns a sketch whose version is the
  common version of the inputs (whatever the current version is), which is bound to the
  default bias table, and whose register \<open>i\<close> is the maximum of the registers \<open>i\<close> of all
  inputs. For two compatible sketches \<open>a\<close> and \<open>b\<close> the registers of \<open>Rollup([a, b])\<close> are those
  of \<open>a\<close> after \<open>a.Merge(b)\<close>.
\<close>

theorem Rollup_per_index_maximum:
  "(sketches \<noteq> [] \<and> (\<forall>sk \<in> set sketches. version sk = v \<and> length (registers sk) = m)
    \<longrightarrow> (\<exists>r. Rollup db sketches = Inr r \<and> version r = v \<and> biasSet r = db
              \<and> length (registers r) = m
              \<and> (\<forall>i < m. registers r ! i = Max ((\<lambda>sk. registers sk ! i) ` set sketches))))
   \<and> (version (h a) = version (h b) \<and> length (registers (h a)) = m
        \<and> length (registers (h b)) = m
    \<longrightarrow> (\<exists>r. Rollup db [h a, h b] = Inr r \<and> snd (Merge h a b) = Inr a
              \<and> registers r = registers (fst (Merge h a b) a)))"
proof (intro conjI impI)
  assume "sketches \<noteq> [] \<and> (\<forall>sk \<in> set sketches. version sk = v \<and> length (registers sk) = m)"
  then show "\<exists>r. Rollup db sketches = Inr r \<and> version r = v \<and> biasSet r = db
              \<and> length (registers r) = m
              \<and> (\<forall>i < m. registers r ! i = Max ((\<lambda>sk. registers sk ! i) ` set sketches))"
    using Rollup_eq [of sketches v db] by simp
next
  assume c: "version (h a) = version (h b) \<and> length (registers (h a)) = m
        \<and> length (registers (h b)) = m"
  then have r: "Rollup db [h a, h b] =
    Inr \<lparr>biasSet = db,
         registers = map (\<lambda>j. Max ((\<lambda>sk. registers sk ! j) ` set [h a, h b])) [0..<m],
         version = version (h a)\<rparr>"
    by (intro Rollup_eq) simp_all
  have "map (\<lambda>j. Max ((\<lambda>sk. registers sk ! j) ` set [h a, h b])) [0..<m]
        = map2 max (registers (h a)) (registers (h b))"
    using c by (intro nth_equalityI) (simp_all add: max.commute)
  then show "\<exists>r. Rollup db [h a, h b] = Inr r \<and> snd (Merge h a b) = Inr a
              \<and> registers r = registers (fst (Merge h a b) a)"
    using r c by (simp add: Merge_eq)
qed

text \<open>
  An instance of C6: two sketches of version \<^verbatim>\<open>"TEST"\<close> with register 0 and register 1 set.
\<close>

theorem Rollup_per_index_maximum_witness:
  "let db = \<lparr>maxTick = 100000, getInterpolatedBias = (\<lambda>x. 1)\<rparr>;
       s0 = \<lparr>biasSet = db, registers = (replicate 16384 0)[0 := 1], version = ''TEST''\<rparr>;
       s1 = \<lparr>biasSet = db, registers = (replicate 16384 0)[1 := 1], version = ''TEST''\<rparr>;
       h = (\<lambda>r. s0)(1 := s1)
   in case Rollup db [s0, s1] of
        Inl e \<Rightarrow> False
      | Inr r \<Rightarrow> version r = ''TEST'' \<and> length (registers r) = 16384
                 \<and> registers r ! 0 = 1 \<and> registers r ! 1 = 1 \<and> registers r ! 2 = 0
                 \<and> registers r = registers (fst (Merge h 0 1) 0)"
proof -
  define db where "db = \<lparr>maxTick = 100000, getInterpolatedBias = (\<lambda>x. 1::real)\<rparr>"
  define s0 where
    "s0 = \<lparr>biasSet = db, registers = (replicate 16384 (0::uint8))[0 := 1], version = ''TEST''\<rparr>"
  define s1 where
    "s1 = \<lparr>biasSet = db, registers = (replicate 16384 (0::uint8))[1 := 1], version = ''TEST''\<rparr>"
  define h :: store where "h = (\<lambda>r. s0)(1 := s1)"
  have h0: "h 0 = s0" and h1: "h 1 = s1" and h1': "h (Suc 0) = s1" by (simp_all add: h_def)
  have m: "m = 16384" by (simp add: m_def precision_def)
  have hyp1: "[s0, s1] \<noteq> [] \<and>
      (\<forall>sk \<in> set [s0, s1]. version sk = ''TEST'' \<and> length (registers sk) = m)"
    by (simp add: s0_def s1_def m)
  have hyp2: "version (h 0) = version (h 1) \<and> length (registers (h 0)) = m
      \<and> length (registers (h 1)) = m"
    by (simp add: h0 h1 h1' s0_def s1_def m)
  note inst = Rollup_per_index_maximum
    [where sketches = "[s0, s1]" and v = "''TEST''" and db = db and h = h and a = 0 and b = 1]
  obtain r where r: "Rollup db [s0, s1] = Inr r" "version r = ''TEST''"
      "length (registers r) = m"
      "\<forall>i < m. registers r ! i = Max ((\<lambda>sk. registers sk ! i) ` set [s0, s1])"
    using inst hyp1 by blast
  obtain r' where r': "Rollup db [h 0, h 1] = Inr r'"
      "registers r' = registers (fst (Merge h 0 1) 0)"
    using inst hyp2 by blast
  have same: "registers r = registers (fst (Merge h 0 1) 0)"
    using r(1) r' by (simp add: h0 h1 h1')
  have i0: "registers r ! 0 = 1" and i1: "registers r ! 1 = 1" and i2: "registers r ! 2 = 0"
    using r(4) by (simp_all add: m s0_def s1_def)
  show ?thesis
    unfolding Let_def db_def [symmetric] s0_def [symmetric] s1_def [symmetric] h_def [symmetric]
    using r(1,2,3) i0 i1 i2 same by (simp add: m)
qed


section \<open>Properties of Estimate\<close>


lemma rawHarmonicLoop_eq:
  "rawHarmonicLoop ns (sm, used) =
     (sm + (\<Sum>n\<leftarrow>filter (\<lambda>n. n \<noteq> 0) ns. 2 powr (- real (unat n))),
      used + real (length (filter (\<lambda>n. n \<noteq> 0) ns)))"
  by (induction ns arbitrary: sm used) (simp_all add: algebra_simps)

lemma linearCountingLoop_eq:
  "linearCountingLoop ns k = k + real (length (filter (\<lambda>n. n = 0) ns))"
  by (induction ns arbitrary: k) simp_all

lemma harmonicSum_nonneg: "0 \<le> (\<Sum>n\<leftarrow>xs. 2 powr (- real (unat (n :: uint8))))"
  by (induction xs) simp_all

lemma harmonicSum_pos:
  "xs \<noteq> [] \<Longrightarrow> 0 < (\<Sum>n\<leftarrow>xs. 2 powr (- real (unat (n :: uint8))))"
proof (cases xs)
  case Nil
  assume "xs \<noteq> []"
  with Nil show ?thesis by simp
next
  case (Cons x xs')
  have "0 < 2 powr (- real (unat x))" by simp
  then have "0 < 2 powr (- real (unat x)) + (\<Sum>n\<leftarrow>xs'. 2 powr (- real (unat n)))"
    using harmonicSum_nonneg [of xs'] by (rule add_pos_nonneg)
  then show ?thesis using Cons by simp
qed

lemma rawHarmonicEstimate_spec: "rawHarmonicEstimate s = rawEstimate_spec s"
proof -
  have loop: "rawHarmonicLoop (registers s) (0, 0) =
      (harmonicSum_spec s, real (registersUsed_spec s))"
    by (simp add: rawHarmonicLoop_eq harmonicSum_spec_def registersUsed_spec_def)
  show ?thesis
  proof (cases "registersUsed_spec s = 0")
    case True
    then show ?thesis
      by (simp add: rawHarmonicEstimate_def rawEstimate_spec_def loop)
  next
    case False
    then have "filter (\<lambda>n. n \<noteq> 0) (registers s) \<noteq> []"
      by (simp add: registersUsed_spec_def)
    then have pos: "harmonicSum_spec s > 0"
      unfolding harmonicSum_spec_def by (rule harmonicSum_pos)
    then have "fdiv (alpha * real (registersUsed_spec s) * real (registersUsed_spec s))
                 (harmonicSum_spec s)
               = Finite (alpha * (real (registersUsed_spec s))\<^sup>2 / harmonicSum_spec s)"
      by (simp add: fdiv_def power2_eq_square mult.assoc)
    then show ?thesis
      using False
      by (simp add: rawHarmonicEstimate_def rawEstimate_spec_def loop floor_uint64_def)
  qed
qed

lemma m_pos: "0 < m" and mf_pos: "0 < mf"
  by (simp_all add: m_def mf_def)

lemma linearCountingValue_eq:
  "linearCountingValue s =
     (if numZeroRegisters s = 0 then PosInf
      else Finite (real m * ln (real m / real (numZeroRegisters s))))"
  using m_pos
  by (simp add: linearCountingValue_def linearCountingLoop_eq numZeroRegisters_def [symmetric]
      fdiv_def mf_def)

lemma linearCounting_spec:
  "linearCounting s =
     (if numZeroRegisters s = 0 then Inl ImplementationDependentConversion
      else floor_uint64 (real m * ln (real m / real (numZeroRegisters s))))"
  by (simp add: linearCounting_def linearCountingValue_eq floor_uint64_def)


lemma floor_uint64_floor:
  "0 \<le> x \<Longrightarrow> x < 2 ^ 64 \<Longrightarrow> floor_uint64 x = Inr (word_of_int \<lfloor>x\<rfloor>)"
  by (simp add: floor_uint64_def)

lemma unat_floor_uint64:
  "floor_uint64 x = Inr w \<Longrightarrow> unat w = nat \<lfloor>x\<rfloor>"
proof -
  assume a: "floor_uint64 x = Inr w"
  then have r: "- 1 < x" "x < 2 ^ 64" and w: "w = word_of_nat (nat \<lfloor>x\<rfloor>)"
    by (auto simp add: floor_uint64_def split: if_splits)
  have "x < of_int (2 ^ 64)" using r(2) by simp
  then have "\<lfloor>x\<rfloor> < 2 ^ 64" by (simp only: floor_less_iff)
  then have "nat \<lfloor>x\<rfloor> < 2 ^ 64" by (simp only: nat_less_numeral_power_cancel_iff)
  then show ?thesis unfolding w by (simp add: unat_of_nat take_bit_nat_eq_self)
qed


lemma ln2_bounds: "0 < ln (2::real)" "ln (2::real) \<le> 1"
proof -
  show "0 < ln (2::real)" by simp
  show "ln (2::real) \<le> 1" using ln_le_minus_one [of "2::real"] by simp
qed

lemma alpha_ge_half: "1 / 2 \<le> alpha"
proof -
  have "2 * ln (2::real) \<le> 2" and "0 < 2 * ln (2::real)" using ln2_bounds by simp_all
  then have "1 / 2 \<le> 1 / (2 * ln (2::real))"
    by (simp add: field_simps)
  then show ?thesis by (simp add: alpha_def)
qed

lemma harmonicSum_le_half:
  "\<forall>n \<in> set xs. n \<noteq> 0 \<Longrightarrow>
   (\<Sum>n\<leftarrow>xs. 2 powr (- real (unat (n :: uint8)))) \<le> real (length xs) / 2"
proof (induction xs)
  case Nil
  then show ?case by simp
next
  case (Cons x xs)
  have "x \<noteq> 0" using Cons.prems by simp
  then have "1 \<le> unat x" by (simp add: unat_gt_0 Suc_leI)
  then have "real 1 \<le> real (unat x)" by (rule of_nat_mono)
  then have "(2::real) powr (- real (unat x)) \<le> 2 powr (- 1)"
    by (intro powr_mono) simp_all
  then have "(2::real) powr (- real (unat x)) \<le> 1 / 2"
    by (simp add: powr_minus_divide)
  moreover have "(\<Sum>n\<leftarrow>xs. 2 powr (- real (unat n))) \<le> real (length xs) / 2"
    using Cons by simp
  ultimately show ?case by simp
qed

lemma filter_all: "numZeroRegisters s = 0 \<Longrightarrow> filter (\<lambda>n. n \<noteq> 0) (registers s) = registers s"
  by (simp add: numZeroRegisters_def filter_id_conv filter_empty_conv)

text \<open>Without a zero register the harmonic estimate is at least the number of registers.\<close>

lemma raw_lower_bound:
  assumes z: "numZeroRegisters s = 0" and ne: "registers s \<noteq> []"
  shows "real (length (registers s))
         \<le> alpha * (real (registersUsed_spec s))\<^sup>2 / harmonicSum_spec s"
proof -
  let ?L = "real (length (registers s))"
  have L: "0 < ?L" using ne by simp
  have used: "registersUsed_spec s = length (registers s)"
    by (simp add: registersUsed_spec_def filter_all [OF z])
  have nz: "\<forall>n \<in> set (registers s). n \<noteq> 0"
    using z by (simp add: numZeroRegisters_def filter_empty_conv)
  have sum_le: "harmonicSum_spec s \<le> ?L / 2"
    unfolding harmonicSum_spec_def filter_all [OF z] using nz by (rule harmonicSum_le_half)
  have sum_pos: "0 < harmonicSum_spec s"
    unfolding harmonicSum_spec_def filter_all [OF z] using ne by (rule harmonicSum_pos)
  have "?L * harmonicSum_spec s \<le> ?L * (?L / 2)"
    using sum_le L by (intro mult_left_mono) simp_all
  also have "\<dots> = (1 / 2) * ?L\<^sup>2" by (simp add: power2_eq_square)
  also have "\<dots> \<le> alpha * ?L\<^sup>2"
    using alpha_ge_half by (intro mult_right_mono) simp_all
  finally have "?L * harmonicSum_spec s \<le> alpha * ?L\<^sup>2" .
  then have "?L \<le> alpha * ?L\<^sup>2 / harmonicSum_spec s"
    using sum_pos by (simp add: pos_le_divide_eq)
  then show ?thesis by (simp add: used)
qed

lemma wf_length: "wf_sketch s \<Longrightarrow> length (registers s) = 16384"
  by (simp add: wf_sketch_def m_def precision_def)

lemma m_eq: "m = 16384"
  by (simp add: m_def precision_def)

lemma linearCounting_needs_zero_register:
  assumes wf: "wf_sketch s" and raw: "rawHarmonicEstimate s = Inr rawEstimate"
    and lt: "rawEstimate < maxLinearCounting"
  shows "0 < numZeroRegisters s"
proof (rule ccontr)
  assume "\<not> 0 < numZeroRegisters s"
  then have z: "numZeroRegisters s = 0" by simp
  have ne: "registers s \<noteq> []" using wf_length [OF wf] by auto
  let ?v = "alpha * (real (registersUsed_spec s))\<^sup>2 / harmonicSum_spec s"
  have v: "16384 \<le> ?v"
    using raw_lower_bound [OF z ne] wf_length [OF wf] by simp
  have used: "registersUsed_spec s \<noteq> 0"
    using ne by (simp add: registersUsed_spec_def filter_all [OF z])
  have "floor_uint64 ?v = Inr rawEstimate"
    using raw used by (simp add: rawHarmonicEstimate_spec rawEstimate_spec_def)
  then have "unat rawEstimate = nat \<lfloor>?v\<rfloor>" by (rule unat_floor_uint64)
  moreover have "(16384::int) \<le> \<lfloor>?v\<rfloor>" using v by (simp add: le_floor_iff)
  ultimately have "16384 \<le> unat rawEstimate" by linarith
  moreover have "unat rawEstimate < 11500"
    using lt by (simp add: maxLinearCounting_def word_less_nat_alt)
  ultimately show False by simp
qed

lemma numZeroRegisters_le: "numZeroRegisters s \<le> length (registers s)"
  by (simp add: numZeroRegisters_def)

lemma linearCounting_value_range:
  assumes wf: "wf_sketch s" and z: "0 < numZeroRegisters s"
  shows "0 \<le> real m * ln (real m / real (numZeroRegisters s))"
    and "real m * ln (real m / real (numZeroRegisters s)) < 2 ^ 64"
proof -
  let ?z = "real (numZeroRegisters s)"
  have zm: "?z \<le> real m" using numZeroRegisters_le [of s] wf by (simp add: wf_sketch_def)
  have zp: "0 < ?z" using z by simp
  have one: "1 \<le> real m / ?z" using zm zp by (simp add: pos_le_divide_eq)
  then have l0: "0 \<le> ln (real m / ?z)" by simp
  then show "0 \<le> real m * ln (real m / ?z)" by simp
  have "real m / ?z \<le> real m" using zp z by (simp add: pos_divide_le_eq mult_le_cancel_left1)
  then have "ln (real m / ?z) \<le> ln (real m)" using one by simp
  also have "\<dots> \<le> real m" using m_pos by (intro ln_bound) simp
  finally have "real m * ln (real m / ?z) \<le> real m * real m"
    by (intro mult_left_mono) simp_all
  also have "\<dots> < 2 ^ 64" by (simp add: m_eq)
  finally show "real m * ln (real m / ?z) < 2 ^ 64" .
qed

text \<open>
  Claim C1. For every sketch with \<open>m\<close> registers whose raw estimate is a \<^verbatim>\<open>uint64\<close>: whenever
  \<open>Estimate\<close> takes the linear-counting branch (the raw estimate is not above \<open>maxTick\<close> and
  is below 11500), at least one register is zero. So the division by the number of zero
  registers is a division by a positive number, the \<^verbatim>\<open>float64\<close> that \<open>linearCounting\<close> converts
  is finite and in the range of \<^verbatim>\<open>uint64\<close>, and \<open>Estimate\<close> returns its floor: no infinite value
  and no NaN leaves the branch. (The code has no special case for zero registers at zero:
  with \<open>m\<close> registers and none of them zero the raw estimate is at least \<open>m\<close>, above 11500.)
\<close>

theorem linearCounting_never_divides_by_zero:
  "wf_sketch s \<Longrightarrow> rawHarmonicEstimate s = Inr rawEstimate \<Longrightarrow>
   \<not> rawEstimate > maxTick (biasSet s) \<Longrightarrow> rawEstimate < maxLinearCounting \<Longrightarrow>
   (\<exists>n \<in> set (registers s). n = 0)
   \<and> (\<exists>x. linearCountingValue s = Finite x \<and> 0 \<le> x \<and> x < 2 ^ 64)
   \<and> Estimate s = linearCounting s
   \<and> Estimate s = Inr (word_of_int \<lfloor>real m * ln (real m / real (numZeroRegisters s))\<rfloor>)"
proof -
  assume wf: "wf_sketch s" and raw: "rawHarmonicEstimate s = Inr rawEstimate"
    and le: "\<not> rawEstimate > maxTick (biasSet s)" and lt: "rawEstimate < maxLinearCounting"
  have z: "0 < numZeroRegisters s"
    using wf raw lt by (rule linearCounting_needs_zero_register)
  then have "filter (\<lambda>n. n = 0) (registers s) \<noteq> []"
    by (simp add: numZeroRegisters_def)
  then have ex: "\<exists>n \<in> set (registers s). n = 0"
    by (simp add: filter_empty_conv)
  note range = linearCounting_value_range [OF wf z]
  have val: "linearCountingValue s = Finite (real m * ln (real m / real (numZeroRegisters s)))"
    using z by (simp add: linearCountingValue_eq)
  have est: "Estimate s = linearCounting s"
    using raw le lt by (simp add: Estimate_def)
  have lc: "linearCounting s
      = Inr (word_of_int \<lfloor>real m * ln (real m / real (numZeroRegisters s))\<rfloor>)"
    using z range by (simp add: linearCounting_spec floor_uint64_floor)
  show ?thesis using ex val range est lc by simp
qed



lemma ln2_gt_two_thirds: "2 / 3 < ln (2::real)"
proof -
  have "exp (1 / 12 :: real) \<le> 1 + 1 / 12 + (1 / 12)\<^sup>2"
    by (rule exp_bound) simp_all
  then have e: "exp (1 / 12 :: real) \<le> 157 / 144"
    by (simp add: power2_eq_square)
  have "exp (2 / 3 :: real) = exp (1 / 12) ^ 8"
    by (simp add: exp_of_nat_mult [symmetric])
  also have "\<dots> \<le> (157 / 144) ^ 8"
    using e by (intro power_mono) simp_all
  also have "\<dots> < 2" by (simp add: power_divide)
  finally have "exp (2 / 3 :: real) < exp (ln 2)" by simp
  then show ?thesis by (simp only: exp_less_cancel_iff)
qed

lemma floor_two_div_ln2: "\<lfloor>2 / ln (2::real)\<rfloor> = 2"
proof -
  have p: "0 < ln (2::real)" by simp
  have u: "ln (2::real) \<le> 1" using ln_le_minus_one [of "2::real"] by simp
  have "2 \<le> 2 / ln (2::real)" using p u by (simp add: pos_le_divide_eq)
  moreover have "2 / ln (2::real) < 3"
    using p ln2_gt_two_thirds by (simp add: pos_divide_less_eq)
  ultimately show ?thesis by (simp add: floor_eq_iff)
qed

lemma floor_linear_counting_one: "\<lfloor>16384 * ln (16384 / 16383 :: real)\<rfloor> = 1"
proof -
  have "ln (1 + 1 / 16383 :: real) \<le> 1 / 16383"
    by (rule ln_add_one_self_le_self) simp
  then have up: "ln (16384 / 16383 :: real) \<le> 1 / 16383" by simp
  have "ln (16383 / 16384 :: real) \<le> 16383 / 16384 - 1"
    by (rule ln_le_minus_one) simp
  moreover have "ln (16383 / 16384 :: real) = - ln (16384 / 16383)"
    using ln_inverse [of "16384 / 16383 :: real"] by simp
  ultimately have lo: "1 / 16384 \<le> ln (16384 / 16383 :: real)" by simp
  have "1 \<le> 16384 * ln (16384 / 16383 :: real)" using lo by simp
  moreover have "16384 * ln (16384 / 16383 :: real) < 2" using up by simp
  ultimately show ?thesis by (simp add: floor_eq_iff)
qed

lemma example_registers:
  assumes "registers s = 2 # replicate 16383 0"
  shows "registersUsed_spec s = 1" and "harmonicSum_spec s = 1 / 4"
    and "numZeroRegisters s = 16383"
proof -
  have f: "filter (\<lambda>n. n \<noteq> 0) (registers s) = [2]"
    unfolding assms by simp
  show "registersUsed_spec s = 1" by (simp add: registersUsed_spec_def f)
  have "(2::real) powr (- 2) = 1 / 4" by (simp add: powr_minus_divide)
  then show "harmonicSum_spec s = 1 / 4" by (simp add: harmonicSum_spec_def f)
  show "numZeroRegisters s = 16383" unfolding numZeroRegisters_def assms by simp
qed

lemma floor_uint64_of_floor:
  assumes "\<lfloor>x\<rfloor> = k" and "0 \<le> k" and "k < 2 ^ 64"
  shows "floor_uint64 x = Inr (word_of_int k)"
proof -
  have "of_int k \<le> x" using assms(1) by (simp add: floor_eq_iff)
  then have x0: "0 \<le> x" using assms(2) by (meson of_int_0_le_iff order_trans)
  have "x < of_int (2 ^ 64)"
    using assms(1,3) by (simp only: floor_less_iff [symmetric])
  then have "x < 2 ^ 64" by simp
  then show ?thesis using x0 assms(1) by (simp add: floor_uint64_floor)
qed

lemma example_rawHarmonicEstimate:
  assumes "registers s = 2 # replicate 16383 0"
  shows "rawHarmonicEstimate s = Inr 2"
proof -
  have "alpha * (real 1)\<^sup>2 / (1 / 4) = 2 / ln 2" by (simp add: alpha_def)
  moreover have "floor_uint64 (2 / ln 2) = Inr (word_of_int 2)"
    using floor_two_div_ln2 by (rule floor_uint64_of_floor) simp_all
  ultimately show ?thesis
    by (simp add: rawHarmonicEstimate_spec rawEstimate_spec_def example_registers [OF assms])
qed

lemma example_linearCounting:
  assumes "registers s = 2 # replicate 16383 0"
  shows "linearCounting s = Inr 1"
proof -
  have "floor_uint64 (16384 * ln (16384 / 16383)) = Inr (word_of_int 1)"
    using floor_linear_counting_one by (rule floor_uint64_of_floor) simp_all
  then show ?thesis
    by (simp add: linearCounting_spec example_registers [OF assms] m_eq)
qed

text \<open>
  An instance of C1: one register at 2 and the other 16383 at zero. The raw estimate is 2, the
  linear-counting branch is taken and the estimate is 1.
\<close>

theorem linearCounting_never_divides_by_zero_witness:
  "let s = \<lparr>biasSet = \<lparr>maxTick = 100000, getInterpolatedBias = (\<lambda>x. 1)\<rparr>,
             registers = 2 # replicate 16383 0, version = ''1''\<rparr>
   in wf_sketch s \<and> rawHarmonicEstimate s = Inr 2 \<and> \<not> 2 > maxTick (biasSet s)
      \<and> (2 :: uint64) < maxLinearCounting
      \<and> numZeroRegisters s = 16383
      \<and> linearCountingValue s = Finite (16384 * ln (16384 / 16383))
      \<and> Estimate s = Inr 1"
proof -
  define s where "s = \<lparr>biasSet = \<lparr>maxTick = 100000, getInterpolatedBias = (\<lambda>x. 1::real)\<rparr>,
             registers = 2 # replicate 16383 (0::uint8), version = ''1''\<rparr>"
  have regs: "registers s = 2 # replicate 16383 0" by (simp add: s_def)
  have wf: "wf_sketch s" by (simp add: wf_sketch_def s_def m_eq)
  have raw: "rawHarmonicEstimate s = Inr 2" using regs by (rule example_rawHarmonicEstimate)
  have le: "\<not> 2 > maxTick (biasSet s)" by (simp add: s_def)
  have lt: "(2 :: uint64) < maxLinearCounting" by (simp add: maxLinearCounting_def)
  have z: "numZeroRegisters s = 16383" using example_registers(3) [OF regs] .
  have val: "linearCountingValue s = Finite (16384 * ln (16384 / 16383))"
    by (simp add: linearCountingValue_eq z m_eq)
  have "Estimate s = linearCounting s"
    using linearCounting_never_divides_by_zero [OF wf raw le lt] by blast
  then have est: "Estimate s = Inr 1" by (simp add: example_linearCounting [OF regs])
  show ?thesis
    unfolding Let_def s_def [symmetric]
    using wf raw le lt z val est by simp
qed




section \<open>Properties of the serialization\<close>


lemma copyRegisters_eq:
  "i + length pbs \<le> length regs \<Longrightarrow>
   copyRegisters regs i pbs = Inr (take i regs @ map ucast pbs @ drop (i + length pbs) regs)"
proof (induction pbs arbitrary: regs i)
  case Nil
  then show ?case by simp
next
  case (Cons registerpb rest)
  have i: "i < length regs" using Cons.prems by simp
  have "copyRegisters (regs[i := ucast registerpb]) (Suc i) rest =
        Inr (take (Suc i) (regs[i := ucast registerpb]) @ map ucast rest
             @ drop (Suc i + length rest) (regs[i := ucast registerpb]))"
    using Cons.prems by (intro Cons.IH) simp
  moreover have "take (Suc i) (regs[i := ucast registerpb]) = take i regs @ [ucast registerpb]"
    using i by (simp add: take_Suc_conv_app_nth)
  ultimately show ?case using i by simp
qed

lemma copyRegisters_panic:
  "i \<le> length regs \<Longrightarrow> length regs < i + length pbs \<Longrightarrow>
   copyRegisters regs i pbs = Inl PanicIndexOutOfRange"
proof (induction pbs arbitrary: regs i)
  case Nil
  then show ?case by simp
next
  case (Cons registerpb rest)
  then show ?case by (cases "i < length regs") simp_all
qed

lemma ProtoDeserialize_eq:
  "ProtoDeserialize unmarshal db protoBs =
     (case protoBs of
        None \<Rightarrow> Inl ErrorNilProto
      | Some bs \<Rightarrow>
          (case unmarshal bs of
             Inl err \<Rightarrow> Inl err
           | Inr sketchpb \<Rightarrow>
               if length (Registers sketchpb) \<le> m
               then Inr \<lparr>biasSet = db,
                         registers = map ucast (Registers sketchpb)
                                     @ replicate (m - length (Registers sketchpb)) 0,
                         version = Version sketchpb\<rparr>
               else Inl PanicIndexOutOfRange))"
proof -
  have ok: "copyRegisters (replicate m 0) 0 pbs = Inr (map ucast pbs @ replicate (m - length pbs) 0)"
    if "length pbs \<le> m" for pbs
    using that copyRegisters_eq [of 0 pbs "replicate m 0"] by simp
  have bad: "copyRegisters (replicate m 0) 0 pbs = Inl PanicIndexOutOfRange"
    if "\<not> length pbs \<le> m" for pbs
    using that copyRegisters_panic [of 0 "replicate m 0" pbs] by simp
  show ?thesis
    by (simp add: ProtoDeserialize_def createSketch_def Let_def ok bad
        split: option.split sum.split)
qed

lemma ucast_uint8_uint32: "ucast (ucast (x :: uint8) :: uint32) = x"
  by (rule ucast_up_ucast_id) (simp add: is_up)

text \<open>
  Claim C2, as the code has it. \<open>ProtoDeserialize\<close> fails on an absent (\<^verbatim>\<open>nil\<close>) payload, and
  fails with the error of the decoder when the decoder rejects the payload; these are its
  only checks. When the decoder returns a message with at most \<open>m\<close> registers it succeeds:
  the sketch has the version of the message and the registers of the message, each cut to
  its low 8 bits, followed by zeros up to \<open>m\<close>. Whenever it succeeds, the sketch it returns
  has exactly \<open>m\<close> registers.
\<close>

theorem ProtoDeserialize_validation:
  "ProtoDeserialize unmarshal db None = Inl ErrorNilProto
   \<and> (unmarshal bs = Inl err \<longrightarrow> ProtoDeserialize unmarshal db (Some bs) = Inl err)
   \<and> (unmarshal bs = Inr sketchpb \<and> length (Registers sketchpb) \<le> m \<longrightarrow>
        ProtoDeserialize unmarshal db (Some bs) =
          Inr \<lparr>biasSet = db,
               registers = map ucast (Registers sketchpb)
                           @ replicate (m - length (Registers sketchpb)) 0,
               version = Version sketchpb\<rparr>)
   \<and> (ProtoDeserialize unmarshal db protoBs = Inr s \<longrightarrow> length (registers s) = m)"
  by (auto simp add: ProtoDeserialize_eq split: option.splits sum.splits if_splits)

text \<open>
  Claim C2 as it is stated fails. An empty payload that is not \<^verbatim>\<open>nil\<close> goes to the decoder, and
  a decoder that reads it as the message without fields, as a protobuf decoder does, makes
  \<open>ProtoDeserialize\<close> return a sketch with the empty version and \<open>m\<close> zero registers. A
  decoded message with two registers, 5 and 300, gives a sketch of \<open>m\<close> registers too: 5,
  44 (the low 8 bits of 300) and zeros. The second payload is the message itself, under
  the codec that encodes a message as itself.
\<close>

theorem ProtoDeserialize_empty_payload_counterexample:
  "ProtoDeserialize
     (\<lambda>bs :: byte list. if bs = [] then Inr \<lparr>Version = [], Registers = []\<rparr>
                         else Inl (ErrorProto ''cannot parse invalid wire-format data''))
     \<lparr>maxTick = 100000, getInterpolatedBias = (\<lambda>x. 1)\<rparr> (Some [])
   = Inr \<lparr>biasSet = \<lparr>maxTick = 100000, getInterpolatedBias = (\<lambda>x. 1)\<rparr>,
          registers = replicate 16384 0, version = []\<rparr>
   \<and> ProtoDeserialize Inr \<lparr>maxTick = 100000, getInterpolatedBias = (\<lambda>x. 1)\<rparr>
       (Some \<lparr>Version = ''1'', Registers = [5, 300]\<rparr>)
   = Inr \<lparr>biasSet = \<lparr>maxTick = 100000, getInterpolatedBias = (\<lambda>x. 1)\<rparr>,
          registers = 5 # 44 # replicate 16382 0, version = ''1''\<rparr>"
  by (simp add: ProtoDeserialize_eq m_def precision_def)

text \<open>
  Instances of C2 with a decoder that accepts the empty payload only: no payload, the payload
  \<^verbatim>\<open>garbage\<close>, and the empty payload.
\<close>

theorem ProtoDeserialize_validation_witness:
  "let unmarshal = (\<lambda>bs :: byte list. if bs = [] then Inr \<lparr>Version = [], Registers = []\<rparr>
                         else Inl (ErrorProto ''cannot parse invalid wire-format data''));
       db = \<lparr>maxTick = 100000, getInterpolatedBias = (\<lambda>x. 1)\<rparr>
   in ProtoDeserialize unmarshal db None = Inl ErrorNilProto
      \<and> ProtoDeserialize unmarshal db (Some [103, 97, 114, 98, 97, 103, 101])
          = Inl (ErrorProto ''cannot parse invalid wire-format data'')
      \<and> ProtoDeserialize unmarshal db (Some [])
          = Inr \<lparr>biasSet = db, registers = replicate 16384 0, version = []\<rparr>
      \<and> length (registers \<lparr>biasSet = db, registers = replicate 16384 0, version = []\<rparr>) = m"
proof -
  define unmarshal where "unmarshal =
     (\<lambda>bs :: byte list. if bs = [] then Inr \<lparr>Version = [], Registers = []\<rparr>
                         else Inl (ErrorProto ''cannot parse invalid wire-format data''))"
  define db where "db = \<lparr>maxTick = 100000, getInterpolatedBias = (\<lambda>x. 1::real)\<rparr>"
  let ?s = "\<lparr>biasSet = db, registers = replicate 16384 0, version = []\<rparr>"
  note inst1 = ProtoDeserialize_validation
    [where unmarshal = unmarshal and db = db and bs = "[103, 97, 114, 98, 97, 103, 101]"
       and err = "ErrorProto ''cannot parse invalid wire-format data''"]
  note inst2 = ProtoDeserialize_validation
    [where unmarshal = unmarshal and db = db and bs = "[]"
       and sketchpb = "\<lparr>Version = [], Registers = []\<rparr>" and protoBs = "Some []" and s = ?s]
  have n: "ProtoDeserialize unmarshal db None = Inl ErrorNilProto"
    using inst1 by blast
  have u1: "unmarshal [103, 97, 114, 98, 97, 103, 101]
            = Inl (ErrorProto ''cannot parse invalid wire-format data'')"
    by (simp add: unmarshal_def)
  have g: "ProtoDeserialize unmarshal db (Some [103, 97, 114, 98, 97, 103, 101])
          = Inl (ErrorProto ''cannot parse invalid wire-format data'')"
    using inst1 u1 by blast
  have u2: "unmarshal [] = Inr \<lparr>Version = [], Registers = []\<rparr>
            \<and> length (Registers \<lparr>Version = [], Registers = []\<rparr>) \<le> m"
    by (simp add: unmarshal_def)
  have "ProtoDeserialize unmarshal db (Some []) =
          Inr \<lparr>biasSet = db,
               registers = map ucast (Registers \<lparr>Version = [], Registers = []\<rparr>)
                           @ replicate (m - length (Registers \<lparr>Version = [], Registers = []\<rparr>)) 0,
               version = Version \<lparr>Version = [], Registers = []\<rparr>\<rparr>"
    using inst2 u2 by blast
  then have e: "ProtoDeserialize unmarshal db (Some []) = Inr ?s"
    by (simp add: m_def precision_def)
  have l: "length (registers ?s) = m"
    using inst2 e by blast
  show ?thesis
    unfolding Let_def unmarshal_def [symmetric] db_def [symmetric]
    using n g e l by simp
qed

text \<open>
  Claim C8, as the code has it. Let \<open>s\<close> be a sketch of \<open>m\<close> registers whose serialization
  succeeds with the payload \<open>bs\<close>, and let the decoder return, for \<open>bs\<close>, the message that was
  encoded. Then deserializing \<open>bs\<close> succeeds with a sketch of the same version and the same
  registers, bound to the default bias table. When \<open>s\<close> is bound to the default table too,
  the result is \<open>s\<close>, and so \<open>Estimate\<close> returns the same on both.
\<close>

theorem ProtoSerialize_roundtrip:
  "wf_sketch s \<and> ProtoSerialize marshal s = Inr bs
   \<and> unmarshal bs = Inr \<lparr>Version = version s, Registers = map ucast (registers s)\<rparr>
   \<longrightarrow> (\<exists>s'. ProtoDeserialize unmarshal db (Some bs) = Inr s'
            \<and> version s' = version s \<and> registers s' = registers s \<and> biasSet s' = db
            \<and> (biasSet s = db \<longrightarrow> s' = s \<and> Estimate s' = Estimate s))"
proof (intro impI)
  assume a: "wf_sketch s \<and> ProtoSerialize marshal s = Inr bs
   \<and> unmarshal bs = Inr \<lparr>Version = version s, Registers = map ucast (registers s)\<rparr>"
  have len: "length (registers s) = m" using a by (simp add: wf_sketch_def)
  have casts: "map ((ucast :: uint32 \<Rightarrow> uint8) \<circ> ucast) (registers s) = registers s"
    by (simp add: ucast_uint8_uint32 comp_def)
  let ?r = "\<lparr>biasSet = db, registers = registers s, version = version s\<rparr>"
  have eq: "ProtoDeserialize unmarshal db (Some bs) = Inr ?r"
    using a len by (simp add: ProtoDeserialize_eq casts)
  have same: "?r = s" if "biasSet s = db"
    using that by (cases s) simp
  show "\<exists>s'. ProtoDeserialize unmarshal db (Some bs) = Inr s'
            \<and> version s' = version s \<and> registers s' = registers s \<and> biasSet s' = db
            \<and> (biasSet s = db \<longrightarrow> s' = s \<and> Estimate s' = Estimate s)"
  proof (intro exI [of _ ?r] conjI impI)
    show "ProtoDeserialize unmarshal db (Some bs) = Inr ?r" by (rule eq)
    show "version ?r = version s" by simp
    show "registers ?r = registers s" by simp
    show "biasSet ?r = db" by simp
    show "?r = s" if "biasSet s = db" using that by (rule same)
    show "Estimate ?r = Estimate s" if "biasSet s = db" using same [OF that] by simp
  qed
qed

text \<open>
  Claim C8 as it is stated fails for a sketch that is bound to a custom bias table (one
  that \<^verbatim>\<open>NewCustomSketch\<close> returns): the payload does not hold the table. Here the table of
  the sketch has \<open>maxTick = 0\<close> and the default one \<open>maxTick = 100000\<close>; one register is 2.
  The raw estimate is 2. The sketch returns it (it is above 0); the deserialized one takes
  the linear-counting branch and returns 1. The codec encodes a message as itself.
\<close>

theorem ProtoSerialize_roundtrip_custom_biases_counterexample:
  "let s = \<lparr>biasSet = \<lparr>maxTick = 0, getInterpolatedBias = (\<lambda>x. 1)\<rparr>,
             registers = 2 # replicate 16383 0, version = ''1''\<rparr>;
       db = \<lparr>maxTick = 100000, getInterpolatedBias = (\<lambda>x. 1)\<rparr>
   in case ProtoSerialize Inr s of
        Inl e \<Rightarrow> False
      | Inr bs \<Rightarrow>
          (case ProtoDeserialize Inr db (Some bs) of
             Inl e \<Rightarrow> False
           | Inr s' \<Rightarrow> version s' = version s \<and> registers s' = registers s
                       \<and> Estimate s = Inr 2 \<and> Estimate s' = Inr 1)"
proof -
  define s where "s = \<lparr>biasSet = \<lparr>maxTick = 0, getInterpolatedBias = (\<lambda>x. 1::real)\<rparr>,
             registers = 2 # replicate 16383 (0::uint8), version = ''1''\<rparr>"
  define db where "db = \<lparr>maxTick = 100000, getInterpolatedBias = (\<lambda>x. 1::real)\<rparr>"
  define s' where "s' = s\<lparr>biasSet := db\<rparr>"
  have regs: "registers s = 2 # replicate 16383 0" and regs': "registers s' = 2 # replicate 16383 0"
    by (simp_all add: s_def s'_def)
  have ser: "ProtoSerialize Inr s = Inr \<lparr>Version = ''1'', Registers = 2 # replicate 16383 0\<rparr>"
    by (simp add: ProtoSerialize_def s_def)
  have de: "ProtoDeserialize Inr db (Some \<lparr>Version = ''1'', Registers = 2 # replicate 16383 0\<rparr>)
            = Inr s'"
    by (simp add: ProtoDeserialize_eq m_eq s'_def s_def)
  have e: "Estimate s = Inr 2"
    by (simp add: Estimate_def example_rawHarmonicEstimate [OF regs]) (simp add: s_def)
  have e': "Estimate s' = Inr 1"
    by (simp add: Estimate_def example_rawHarmonicEstimate [OF regs']
        example_linearCounting [OF regs'] maxLinearCounting_def) (simp add: s'_def db_def)
  show ?thesis
    unfolding Let_def s_def [symmetric] db_def [symmetric]
    using ser de e e' by (simp add: s'_def)
qed


text \<open>
  An instance of C8: a sketch bound to the default table, one register at 2, through the codec
  that encodes a message as itself.
\<close>

theorem ProtoSerialize_roundtrip_witness:
  "let db = \<lparr>maxTick = 100000, getInterpolatedBias = (\<lambda>x. 1)\<rparr>;
       s = \<lparr>biasSet = db, registers = 2 # replicate 16383 0, version = ''1''\<rparr>;
       bs = \<lparr>Version = ''1'', Registers = 2 # replicate 16383 0\<rparr>
   in wf_sketch s \<and> ProtoSerialize Inr s = Inr bs
      \<and> ProtoDeserialize Inr db (Some bs) = Inr s"
proof -
  define db where "db = \<lparr>maxTick = 100000, getInterpolatedBias = (\<lambda>x. 1::real)\<rparr>"
  define s where "s = \<lparr>biasSet = db, registers = 2 # replicate 16383 (0::uint8), version = ''1''\<rparr>"
  define bs where "bs = \<lparr>Version = ''1'', Registers = 2 # replicate 16383 (0::uint32)\<rparr>"
  have wf: "wf_sketch s" by (simp add: wf_sketch_def s_def m_eq)
  have ser: "ProtoSerialize Inr s = Inr bs"
    by (simp add: ProtoSerialize_def s_def bs_def)
  have un: "Inr bs = (Inr \<lparr>Version = version s, Registers = map ucast (registers s)\<rparr>
                      :: error + pb_Sketch)"
    by (simp add: s_def bs_def)
  have b: "biasSet s = db" by (simp add: s_def)
  obtain s' where "ProtoDeserialize Inr db (Some bs) = Inr s'" and "s' = s"
    using ProtoSerialize_roundtrip
      [where s = s and marshal = Inr and unmarshal = Inr and bs = bs and db = db]
      wf ser un b by blast
  then have "ProtoDeserialize Inr db (Some bs) = Inr s" by simp
  then show ?thesis
    unfolding Let_def db_def [symmetric] s_def [symmetric] bs_def [symmetric]
    using wf ser by simp
qed


section \<open>Monotonicity, idempotence and order of Insert\<close>


lemma Insert_eq:
  "Insert hash s e =
     (if unat (fst (getRegisterAndLeadingZeros (hash e))) < length (registers s)
      then Inr (s\<lparr>registers := (registers s)
                [unat (fst (getRegisterAndLeadingZeros (hash e))) :=
                   max (registers s ! unat (fst (getRegisterAndLeadingZeros (hash e))))
                       (snd (getRegisterAndLeadingZeros (hash e)) + 1)]\<rparr>)
      else Inl PanicIndexOutOfRange)"
  by (simp add: Insert_def addHash_eq Let_def getRegisterAndLeadingZeros_eq add.commute)

lemma register_index_less: "unat (fst (getRegisterAndLeadingZeros h)) < m"
  using unat_drop_bit_50 [of h] by (simp add: getRegisterAndLeadingZeros_eq m_eq)

lemma Max_insert_max:
  "finite S \<Longrightarrow> Max (insert (max r z) S) = Max (insert r (insert z (S :: uint8 set)))"
  by (cases "S = {}") (simp_all add: max.assoc)

text \<open>
  After a sequence of calls that stay inside the register array, register \<open>i\<close> holds the
  maximum of its old value and of the values of the elements that hash to \<open>i\<close>.
\<close>

lemma InsertAll_registers:
  "\<forall>e \<in> set es. unat (fst (getRegisterAndLeadingZeros (hash e))) < length (registers s) \<Longrightarrow>
   \<exists>t. InsertAll hash s es = Inr t \<and> version t = version s \<and> biasSet t = biasSet s
       \<and> length (registers t) = length (registers s)
       \<and> (\<forall>i < length (registers s). registers t ! i =
             Max (insert (registers s ! i)
                    ((\<lambda>e. snd (getRegisterAndLeadingZeros (hash e)) + 1) `
                       {e \<in> set es. unat (fst (getRegisterAndLeadingZeros (hash e))) = i})))"
proof (induction es arbitrary: s)
  case Nil
  then show ?case by simp
next
  case (Cons e es)
  let ?ix = "\<lambda>e. unat (fst (getRegisterAndLeadingZeros (hash e)))"
  let ?z = "\<lambda>e. snd (getRegisterAndLeadingZeros (hash e)) + 1"
  let ?s1 = "s\<lparr>registers := (registers s)[?ix e := max (registers s ! ?ix e) (?z e)]\<rparr>"
  have ix: "?ix e < length (registers s)" using Cons.prems by simp
  then have ins: "Insert hash s e = Inr ?s1" by (simp add: Insert_eq)
  have "\<forall>e \<in> set es. ?ix e < length (registers ?s1)" using Cons.prems by simp
  from Cons.IH [OF this] obtain t where t: "InsertAll hash ?s1 es = Inr t"
    "version t = version ?s1" "biasSet t = biasSet ?s1"
    "length (registers t) = length (registers ?s1)"
    "\<forall>i < length (registers ?s1). registers t ! i =
        Max (insert (registers ?s1 ! i) (?z ` {e \<in> set es. ?ix e = i}))"
    by blast
  have "registers t ! i = Max (insert (registers s ! i) (?z ` {e' \<in> set (e # es). ?ix e' = i}))"
    if i: "i < length (registers s)" for i
  proof -
    have ti: "registers t ! i = Max (insert (registers ?s1 ! i) (?z ` {e \<in> set es. ?ix e = i}))"
      using t(5) i by simp
    show ?thesis
    proof (cases "i = ?ix e")
      case True
      have set_eq: "{e' \<in> set (e # es). ?ix e' = i} = insert e {e' \<in> set es. ?ix e' = i}"
        using True by auto
      have r1: "registers ?s1 ! i = max (registers s ! i) (?z e)"
        using True i by simp
      have "Max (insert (max (registers s ! i) (?z e)) (?z ` {e \<in> set es. ?ix e = i}))
          = Max (insert (registers s ! i) (insert (?z e) (?z ` {e \<in> set es. ?ix e = i})))"
        by (rule Max_insert_max) simp
      then show ?thesis unfolding ti r1 set_eq image_insert .
    next
      case False
      have set_eq: "{e' \<in> set (e # es). ?ix e' = i} = {e' \<in> set es. ?ix e' = i}"
        using False by auto
      have r1: "registers ?s1 ! i = registers s ! i"
        using False by simp
      show ?thesis unfolding ti r1 set_eq ..
    qed
  qed
  then show ?case using ins t(1-4) by simp
qed

lemma Insert_length:
  "Insert hash s e = Inr s' \<Longrightarrow> length (registers s') = length (registers s)"
  by (auto simp add: Insert_eq split: if_splits)

lemma InsertAll_panic:
  "\<exists>e \<in> set es. \<not> unat (fst (getRegisterAndLeadingZeros (hash e))) < length (registers s) \<Longrightarrow>
   InsertAll hash s es = Inl PanicIndexOutOfRange"
proof (induction es arbitrary: s)
  case Nil
  then show ?case by simp
next
  case (Cons e es)
  show ?case
  proof (cases "Insert hash s e")
    case (Inl err)
    then have "err = PanicIndexOutOfRange" by (auto simp add: Insert_eq split: if_splits)
    with Inl show ?thesis by simp
  next
    case (Inr s')
    then have "unat (fst (getRegisterAndLeadingZeros (hash e))) < length (registers s)"
      by (auto simp add: Insert_eq split: if_splits)
    moreover have "length (registers s') = length (registers s)"
      using Inr by (rule Insert_length)
    ultimately have "\<exists>e \<in> set es.
        \<not> unat (fst (getRegisterAndLeadingZeros (hash e))) < length (registers s')"
      using Cons.prems by auto
    then show ?thesis using Inr Cons.IH by simp
  qed
qed

lemma sketch_eqI:
  "version t = version t' \<Longrightarrow> biasSet t = biasSet t' \<Longrightarrow> registers t = registers t' \<Longrightarrow>
   t = (t' :: sketch)"
  by (rule sketch.equality) simp_all

lemma InsertAll_order:
  assumes p: "mset es' = mset es"
  shows "InsertAll hash s es' = InsertAll hash s es"
proof -
  let ?ix = "\<lambda>e. unat (fst (getRegisterAndLeadingZeros (hash e)))"
  let ?z = "\<lambda>e. snd (getRegisterAndLeadingZeros (hash e)) + 1"
  have set: "set es' = set es" using p by (rule mset_eq_setD)
  show ?thesis
  proof (cases "\<forall>e \<in> set es. ?ix e < length (registers s)")
    case True
    then have True': "\<forall>e \<in> set es'. ?ix e < length (registers s)" using set by simp
    from InsertAll_registers [OF True] obtain t where t: "InsertAll hash s es = Inr t"
      "version t = version s" "biasSet t = biasSet s"
      "length (registers t) = length (registers s)"
      "\<forall>i < length (registers s). registers t ! i =
         Max (insert (registers s ! i) (?z ` {e \<in> set es. ?ix e = i}))"
      by blast
    from InsertAll_registers [OF True'] obtain t' where t': "InsertAll hash s es' = Inr t'"
      "version t' = version s" "biasSet t' = biasSet s"
      "length (registers t') = length (registers s)"
      "\<forall>i < length (registers s). registers t' ! i =
         Max (insert (registers s ! i) (?z ` {e \<in> set es'. ?ix e = i}))"
      by blast
    have "\<forall>i < length (registers s). registers t' ! i = registers t ! i"
      using t(5) t'(5) set by simp
    then have "registers t' = registers t"
      using t(4) t'(4) by (intro nth_equalityI) simp_all
    then have "t' = t" using t(2,3) t'(2,3) by (intro sketch_eqI) simp_all
    then show ?thesis using t(1) t'(1) by simp
  next
    case False
    then have "\<exists>e \<in> set es. \<not> ?ix e < length (registers s)" by simp
    moreover from this have "\<exists>e \<in> set es'. \<not> ?ix e < length (registers s)"
      using set by simp
    ultimately show ?thesis by (simp add: InsertAll_panic)
  qed
qed

lemma InsertAll_result:
  assumes r: "InsertAll hash s es = Inr t"
  shows "length (registers t) = length (registers s)"
    and "\<forall>i < length (registers s). registers s ! i \<le> registers t ! i"
    and "\<forall>e' \<in> set es. Insert hash t e' = Inr t"
proof -
  let ?ix = "\<lambda>e. unat (fst (getRegisterAndLeadingZeros (hash e)))"
  let ?z = "\<lambda>e. snd (getRegisterAndLeadingZeros (hash e)) + 1"
  let ?S = "\<lambda>i. ?z ` {e \<in> set es. ?ix e = i}"
  have inside: "\<forall>e \<in> set es. ?ix e < length (registers s)"
  proof (rule ccontr)
    assume "\<not> (\<forall>e \<in> set es. ?ix e < length (registers s))"
    then have "InsertAll hash s es = Inl PanicIndexOutOfRange"
      by (intro InsertAll_panic) simp
    then show False using r by simp
  qed
  from InsertAll_registers [OF inside] r have t:
    "length (registers t) = length (registers s)"
    "\<forall>i < length (registers s). registers t ! i = Max (insert (registers s ! i) (?S i))"
    by auto
  show "length (registers t) = length (registers s)" by (rule t(1))
  show "\<forall>i < length (registers s). registers s ! i \<le> registers t ! i"
    using t(2) by simp
  show "\<forall>e' \<in> set es. Insert hash t e' = Inr t"
  proof
    fix e' assume e': "e' \<in> set es"
    then have ix: "?ix e' < length (registers s)" using inside by simp
    have "?z e' \<in> insert (registers s ! ?ix e') (?S (?ix e'))"
      using e' by auto
    then have "?z e' \<le> Max (insert (registers s ! ?ix e') (?S (?ix e')))"
      by (intro Max_ge) simp_all
    then have "?z e' \<le> registers t ! ?ix e'" using t(2) ix by simp
    then have "max (registers t ! ?ix e') (?z e') = registers t ! ?ix e'"
      by (simp add: max_def)
    then show "Insert hash t e' = Inr t"
      using ix t(1) by (simp add: Insert_eq)
  qed
qed

text \<open>
  Claim C10. For every sketch: when \<open>Insert\<close> of an element returns, no register is lower
  than before, and a second \<open>Insert\<close> of the same element returns the sketch as it is. When
  a sequence of calls of \<open>Insert\<close> returns, no register is lower than before, and inserting
  once more an element of the sequence leaves every register, and so the result of
  \<open>Estimate\<close>, as it is. The sequence in any other order has the same outcome: the same
  sketch, or a panic. On a sketch of \<open>m\<close> registers every call returns, with a sketch of \<open>m\<close>
  registers.
\<close>

theorem Insert_monotonic_idempotent_order_independent:
  "(\<forall>s1. Insert hash s e = Inr s1 \<longrightarrow>
      length (registers s1) = length (registers s)
      \<and> (\<forall>i < length (registers s). registers s ! i \<le> registers s1 ! i)
      \<and> Insert hash s1 e = Inr s1)
   \<and> (\<forall>t. InsertAll hash s es = Inr t \<longrightarrow>
        length (registers t) = length (registers s)
        \<and> (\<forall>i < length (registers s). registers s ! i \<le> registers t ! i)
        \<and> (\<forall>e' \<in> set es. \<exists>t'. Insert hash t e' = Inr t' \<and> registers t' = registers t
                               \<and> Estimate t' = Estimate t))
   \<and> (mset es' = mset es \<longrightarrow> InsertAll hash s es' = InsertAll hash s es)
   \<and> (wf_sketch s \<longrightarrow>
        (\<exists>s1. Insert hash s e = Inr s1 \<and> wf_sketch s1)
        \<and> (\<exists>t. InsertAll hash s es = Inr t \<and> wf_sketch t))"
proof (intro conjI)
  show "\<forall>s1. Insert hash s e = Inr s1 \<longrightarrow>
      length (registers s1) = length (registers s)
      \<and> (\<forall>i < length (registers s). registers s ! i \<le> registers s1 ! i)
      \<and> Insert hash s1 e = Inr s1"
  proof (intro allI impI)
    fix s1 assume "Insert hash s e = Inr s1"
    then have one: "InsertAll hash s [e] = Inr s1" by simp
    show "length (registers s1) = length (registers s)
      \<and> (\<forall>i < length (registers s). registers s ! i \<le> registers s1 ! i)
      \<and> Insert hash s1 e = Inr s1"
      using InsertAll_result [OF one] by simp
  qed
  show "\<forall>t. InsertAll hash s es = Inr t \<longrightarrow>
        length (registers t) = length (registers s)
        \<and> (\<forall>i < length (registers s). registers s ! i \<le> registers t ! i)
        \<and> (\<forall>e' \<in> set es. \<exists>t'. Insert hash t e' = Inr t' \<and> registers t' = registers t
                               \<and> Estimate t' = Estimate t)"
  proof (intro allI impI)
    fix t assume r: "InsertAll hash s es = Inr t"
    show "length (registers t) = length (registers s)
        \<and> (\<forall>i < length (registers s). registers s ! i \<le> registers t ! i)
        \<and> (\<forall>e' \<in> set es. \<exists>t'. Insert hash t e' = Inr t' \<and> registers t' = registers t
                               \<and> Estimate t' = Estimate t)"
      using InsertAll_result [OF r] by simp
  qed
  show "mset es' = mset es \<longrightarrow> InsertAll hash s es' = InsertAll hash s es"
    using InsertAll_order by blast
  show "wf_sketch s \<longrightarrow>
        (\<exists>s1. Insert hash s e = Inr s1 \<and> wf_sketch s1)
        \<and> (\<exists>t. InsertAll hash s es = Inr t \<and> wf_sketch t)"
  proof
    assume wf: "wf_sketch s"
    then have len: "length (registers s) = m" by (simp add: wf_sketch_def)
    have inside: "\<forall>e \<in> set xs. unat (fst (getRegisterAndLeadingZeros (hash e)))
                    < length (registers s)" for xs
      using register_index_less len by simp
    have total: "\<exists>t. InsertAll hash s xs = Inr t \<and> wf_sketch t" for xs
      using InsertAll_registers [OF inside, of xs] len by (auto simp add: wf_sketch_def)
    from total [of "[e]"] have "\<exists>s1. Insert hash s e = Inr s1 \<and> wf_sketch s1"
      by (auto split: sum.splits)
    with total [of es] show "(\<exists>s1. Insert hash s e = Inr s1 \<and> wf_sketch s1)
        \<and> (\<exists>t. InsertAll hash s es = Inr t \<and> wf_sketch t)"
      by blast
  qed
qed


lemma countLeadingZeroBits_three: "countLeadingZeroBits 50 3 = 48"
proof -
  have "len_nat 3 = 2" by (simp add: len_nat.simps)
  then show ?thesis using countLeadingZeroBits_Len64 [of 3 50] by (simp add: Len64_def)
qed

text \<open>
  An instance of C10: two elements whose hashes fall into the registers 1 and 2, inserted
  into an empty sketch in both orders, and inserted again.
\<close>

theorem Insert_monotonic_idempotent_order_independent_witness:
  "let hash = (\<lambda>e :: byte list. if e = [1] then 2 ^ 50 + 1 else 2 ^ 51 + 3);
       s = createSketch \<lparr>maxTick = 100000, getInterpolatedBias = (\<lambda>x. 1)\<rparr>
   in wf_sketch s
      \<and> (case InsertAll hash s [[1], [2]] of
            Inl err \<Rightarrow> False
          | Inr t \<Rightarrow> registers t ! 0 = 0 \<and> registers t ! 1 = 50 \<and> registers t ! 2 = 49
                     \<and> InsertAll hash s [[2], [1]] = Inr t
                     \<and> Insert hash t [1] = Inr t \<and> Insert hash t [2] = Inr t)"
proof -
  define hash :: "byte list \<Rightarrow> uint64" where
    "hash = (\<lambda>e. if e = [1] then 2 ^ 50 + 1 else 2 ^ 51 + 3)"
  define s where "s = createSketch \<lparr>maxTick = 100000, getInterpolatedBias = (\<lambda>x. 1)\<rparr>"
  have wf: "wf_sketch s" by (simp add: s_def wf_sketch_def createSketch_def)
  have d1: "drop_bit 50 (2 ^ 50 + 1 :: uint64) = 1" by (simp add: drop_bit_eq_div)
  have t1: "take_bit 50 (2 ^ 50 + 1 :: uint64) = 1" by (simp add: take_bit_eq_mod)
  have d2: "drop_bit 50 (2 ^ 51 + 3 :: uint64) = 2" by (simp add: drop_bit_eq_div)
  have t2: "take_bit 50 (2 ^ 51 + 3 :: uint64) = 3" by (simp add: take_bit_eq_mod)
  have h1: "hash [1] = 2 ^ 50 + 1" and h2: "hash [2] = 2 ^ 51 + 3"
    by (simp_all add: hash_def)
  have g1: "getRegisterAndLeadingZeros (hash [1]) = (1, 49)"
    unfolding getRegisterAndLeadingZeros_eq h1 d1 t1 countLeadingZeroBits_one by simp
  have g2: "getRegisterAndLeadingZeros (hash [2]) = (2, 48)"
    unfolding getRegisterAndLeadingZeros_eq h2 d2 t2 countLeadingZeroBits_three by simp
  note inst = Insert_monotonic_idempotent_order_independent
    [where s = s and hash = hash and e = "[1]" and es = "[[1], [2]]" and es' = "[[2], [1]]"]
  obtain t where t: "InsertAll hash s [[1], [2]] = Inr t" and wft: "wf_sketch t"
    using inst wf by blast
  have again: "\<forall>e' \<in> set [[1], [2]]. \<exists>t'. Insert hash t e' = Inr t' \<and> registers t' = registers t
                               \<and> Estimate t' = Estimate t"
    using inst t by blast
  have "mset [[2], [1 :: byte]] = mset [[1], [2]]" by simp
  then have swap: "InsertAll hash s [[2], [1]] = Inr t" using inst t by simp
  have i1: "Insert hash s [1] = Inr (s\<lparr>registers := (registers s)[Suc 0 := 50]\<rparr>)"
    by (simp add: Insert_eq g1 s_def createSketch_def m_eq)
  have i2: "Insert hash (s\<lparr>registers := (registers s)[Suc 0 := 50]\<rparr>) [2]
            = Inr (s\<lparr>registers := (registers s)[Suc 0 := 50, 2 := 49]\<rparr>)"
    by (simp add: Insert_eq g2 s_def createSketch_def m_eq)
  have tt: "t = s\<lparr>registers := (registers s)[Suc 0 := 50, 2 := 49]\<rparr>"
    using t by (simp add: i1 i2)
  have regs: "registers t ! 0 = 0" "registers t ! 1 = 50" "registers t ! 2 = 49"
    by (simp_all add: tt s_def createSketch_def m_eq)
  have same: "Insert hash t e' = Inr t'' \<Longrightarrow> registers t'' = registers t \<Longrightarrow> t'' = t" for t'' e'
    by (auto simp add: Insert_eq split: if_splits intro: sketch_eqI)
  have r1: "Insert hash t [1] = Inr t" and r2: "Insert hash t [2] = Inr t"
    using again same by auto
  show ?thesis
    unfolding Let_def hash_def [symmetric] s_def [symmetric]
    using wf t regs swap r1 r2 by simp
qed


section \<open>Rounding to \<^verbatim>\<open>float64\<close>\<close>

text \<open>
  The exponent found by \<open>floorLog2\<close> is the one of the binary representation; the numbers
  \<open>n * 2^k\<close> with fewer than 54 bits in \<open>n\<close> and \<open>k\<close> from -1074 on are left as they are by the
  rounding, and the rounding of a positive number is one of them or zero.
\<close>

lemma two_powi_nat: "0 \<le> k \<Longrightarrow> (2::real) powi k = 2 ^ nat k"
  by (simp add: power_int_def)

lemma two_powi_neg: "0 \<le> k \<Longrightarrow> (2::real) powi (- k) = 1 / 2 ^ nat k"
  by (simp add: power_int_minus two_powi_nat divide_simps)

lemma int_less_pow_real: "(z::int) < 2 ^ n \<Longrightarrow> real_of_int z + 1 \<le> 2 ^ n"
proof -
  assume "z < 2 ^ n"
  then have "z + 1 \<le> 2 ^ n" by simp
  then have "real_of_int (z + 1) \<le> real_of_int (2 ^ n)" by (simp only: of_int_le_iff)
  then show ?thesis by simp
qed

lemma floorLog2_bounds:
  assumes "0 < x"
  shows "2 powi floorLog2 x \<le> x" and "x < 2 powi (floorLog2 x + 1)"
proof -
  have "2 powi floorLog2 x \<le> x \<and> x < 2 powi (floorLog2 x + 1)"
  proof (cases "1 \<le> x")
    case True
    define z where "z = \<lfloor>x\<rfloor>"
    have z: "0 < z" "of_int z \<le> x" "x < of_int z + 1" using True by (simp_all add: z_def)
    define b where "b = bitlen z"
    have b: "(2::int) ^ nat (b - 1) \<le> z" "z < 2 ^ nat b"
      using bitlen_bounds [OF z(1)] by (simp_all add: b_def)
    have b1: "1 \<le> b" using z(1) bitlen_eq_zero_iff [of z] bitlen_nonneg [of z]
      by (simp add: b_def)
    have fl: "floorLog2 x = b - 1" using True by (simp add: floorLog2_def b_def z_def)
    have "(2::real) ^ nat (b - 1) \<le> of_int z" using b(1) by simp
    then have lo: "(2::real) ^ nat (b - 1) \<le> x" using z(2) by linarith
    have "real_of_int z + 1 \<le> 2 ^ nat b" using b(2) by (rule int_less_pow_real)
    then have hi: "x < (2::real) ^ nat b" using z(3) by simp
    show ?thesis using lo hi b1 by (simp add: fl two_powi_nat)
  next
    case False
    define y where "y = 1 / x"
    have y1: "1 < y" using False assms by (simp add: y_def)
    define z where "z = \<lceil>y\<rceil> - 1"
    have z: "0 < z" "of_int z < y" "y \<le> of_int z + 1"
      using y1 by (simp_all add: z_def less_ceiling_iff) linarith+
    define b where "b = bitlen z"
    have b: "(2::int) ^ nat (b - 1) \<le> z" "z < 2 ^ nat b"
      using bitlen_bounds [OF z(1)] by (simp_all add: b_def)
    have b1: "1 \<le> b" using z(1) bitlen_eq_zero_iff [of z] bitlen_nonneg [of z]
      by (simp add: b_def)
    have fl: "floorLog2 x = - b" using False by (simp add: floorLog2_def b_def z_def y_def)
    have "(2::real) ^ nat (b - 1) \<le> of_int z" using b(1) by simp
    then have lo: "(2::real) ^ nat (b - 1) < y" using z(2) by linarith
    have "real_of_int z + 1 \<le> 2 ^ nat b" using b(2) by (rule int_less_pow_real)
    then have hi: "y \<le> (2::real) ^ nat b" using z(3) by simp
    have x: "x = 1 / y" using assms by (simp add: y_def)
    have ypos: "0 < y" using y1 by simp
    have "1 / (2::real) ^ nat b \<le> 1 / y" using hi ypos by (simp add: frac_le)
    then have lo': "1 / (2::real) ^ nat b \<le> x" by (simp only: x [symmetric])
    have "1 / y < 1 / (2::real) ^ nat (b - 1)" using lo ypos by (simp add: frac_less2)
    then have hi': "x < 1 / (2::real) ^ nat (b - 1)" by (simp only: x [symmetric])
    have p1: "(2::real) powi (- b) = 1 / 2 ^ nat b" using b1 by (simp add: two_powi_neg)
    have p2: "(2::real) powi (- b + 1) = 1 / 2 ^ nat (b - 1)"
      using two_powi_neg [of "b - 1"] b1 by simp
    show ?thesis unfolding fl p1 p2 using lo' hi' by simp
  qed
  then show "2 powi floorLog2 x \<le> x" and "x < 2 powi (floorLog2 x + 1)" by simp_all
qed

lemma roundHalfEven_of_int: "roundHalfEven (of_int k) = k"
  by (simp add: roundHalfEven_def)

lemma floor_le_roundHalfEven: "\<lfloor>q\<rfloor> \<le> roundHalfEven q"
  by (simp add: roundHalfEven_def Let_def)

lemma roundHalfEven_ge: "of_int k \<le> q \<Longrightarrow> k \<le> roundHalfEven q"
  using floor_le_roundHalfEven [of q] by (simp add: le_floor_iff [symmetric])

lemma roundHalfEven_le: "q \<le> of_int k \<Longrightarrow> roundHalfEven q \<le> k"
proof -
  assume a: "q \<le> of_int k"
  have f: "\<lfloor>q\<rfloor> \<le> k" using a by (simp add: floor_le_iff)
  show ?thesis
  proof (cases "\<lfloor>q\<rfloor> = k")
    case True
    then have "q = of_int k" using a by linarith
    then show ?thesis by (simp add: roundHalfEven_of_int)
  next
    case False
    then have "\<lfloor>q\<rfloor> + 1 \<le> k" using f by simp
    then show ?thesis by (simp add: roundHalfEven_def Let_def)
  qed
qed

lemma two_powi_less_cancel: "(2::real) powi a < 2 powi b \<Longrightarrow> a < b"
proof (rule ccontr)
  assume lt: "(2::real) powi a < 2 powi b" and "\<not> a < b"
  then have "b \<le> a" by simp
  then have "(2::real) powi b \<le> 2 powi a" by (rule power_int_increasing) simp
  then show False using lt by simp
qed

lemma two_powi_add: "(2::real) powi (a + b) = 2 powi a * 2 powi b"
  by (simp add: power_int_add)

lemma float64_of_real_representable:
  assumes n: "0 < n" "n < 2 ^ 53" and k: "- 1074 \<le> k"
  shows "float64_of_real (of_int n * 2 powi k) = of_int n * 2 powi k"
proof -
  define x :: real where "x = of_int n * 2 powi k"
  have xpos: "0 < x" using n(1) by (simp add: x_def)
  define e where "e = floorLog2 x"
  define E where "E = max e (- 1022)"
  have "real_of_int n < 2 ^ 53" using n(2) by simp
  then have "x < 2 ^ 53 * 2 powi k" by (simp add: x_def)
  also have "\<dots> = 2 powi (53 + k)" by (simp add: two_powi_add)
  finally have "2 powi e < (2::real) powi (53 + k)"
    using floorLog2_bounds(1) [OF xpos] unfolding e_def by linarith
  then have "e < 53 + k" by (rule two_powi_less_cancel)
  then have Ek: "E - 52 \<le> k" using k by (simp add: E_def)
  define d where "d = nat (k - (E - 52))"
  have kd: "k = int d + (E - 52)" using Ek by (simp add: d_def)
  have q: "x / 2 powi (E - 52) = of_int (n * 2 ^ d)"
    unfolding x_def by (subst kd) (simp add: two_powi_add)
  have "of_int (roundHalfEven (x / 2 powi (E - 52))) * 2 powi (E - 52) = x"
    unfolding q roundHalfEven_of_int
    unfolding x_def by (subst kd) (simp add: two_powi_add)
  then show ?thesis
    using xpos unfolding x_def [symmetric]
    by (simp add: float64_of_real_def Let_def e_def [symmetric] E_def [symmetric])
qed

lemma float64_of_real_one: "float64_of_real 1 = 1"
  using float64_of_real_representable [of 1 0] by simp

lemma float64_of_real_half: "float64_of_real (1 / 2) = 1 / 2"
  using float64_of_real_representable [of 1 "- 1"] by (simp add: power_int_minus)


lemma float64_of_real_idem:
  assumes xpos: "0 < x"
  shows "float64_of_real (float64_of_real x) = float64_of_real x"
proof -
  define e where "e = floorLog2 x"
  define E where "E = max e (- 1022)"
  define u :: real where "u = 2 powi (E - 52)"
  define n where "n = roundHalfEven (x / u)"
  have y: "float64_of_real x = of_int n * u"
    using xpos
    by (simp add: float64_of_real_def Let_def e_def [symmetric] E_def [symmetric]
        u_def [symmetric] n_def [symmetric])
  have upos: "0 < u" by (simp add: u_def)
  have "real_of_int 0 \<le> x / u" using xpos upos by simp
  then have n0: "0 \<le> n" unfolding n_def by (rule roundHalfEven_ge)
  have "e + 1 \<le> E + 1" by (simp add: E_def)
  then have "(2::real) powi (e + 1) \<le> 2 powi (E + 1)" by (rule power_int_increasing) simp
  then have "x < 2 powi (E + 1)"
    using floorLog2_bounds(2) [OF xpos] unfolding e_def by linarith
  also have "E + 1 = 53 + (E - 52)" by simp
  also have "(2::real) powi (53 + (E - 52)) = 2 ^ 53 * u"
    unfolding u_def by (subst two_powi_add) simp
  finally have "x / u < 2 ^ 53" using upos by (simp add: pos_divide_less_eq)
  then have "x / u \<le> real_of_int (2 ^ 53)" by simp
  then have n53: "n \<le> 2 ^ 53" unfolding n_def by (rule roundHalfEven_le)
  have Ek: "- 1074 \<le> E - 52" by (simp add: E_def)
  consider "n = 0" | "0 < n" "n < 2 ^ 53" | "n = 2 ^ 53" using n0 n53 by linarith
  then show ?thesis
  proof cases
    case 1
    then show ?thesis unfolding y by (simp add: float64_of_real_def)
  next
    case 2
    then show ?thesis unfolding y u_def using Ek by (intro float64_of_real_representable)
  next
    case 3
    have "- 1074 \<le> E - 51" using Ek by simp
    then have "float64_of_real (real_of_int (2 ^ 52) * 2 powi (E - 51))
        = real_of_int (2 ^ 52) * 2 powi (E - 51)"
      by (intro float64_of_real_representable) simp_all
    moreover have "E - 51 = 1 + (E - 52)" by simp
    then have "real_of_int (2 ^ 52) * 2 powi (E - 51) = real_of_int n * u"
      unfolding u_def 3 by (simp only: two_powi_add) simp
    ultimately show ?thesis unfolding y by simp
  qed
qed

lemma float64_of_real_nonpos: "x \<le> 0 \<Longrightarrow> float64_of_real x \<le> 0"
proof (cases "x = 0")
  case True
  then show ?thesis by (simp add: float64_of_real_def)
next
  case False
  assume "x \<le> 0"
  define u :: real where "u = 2 powi (max (floorLog2 \<bar>x\<bar>) (- 1022) - 52)"
  have upos: "0 < u" by (simp add: u_def)
  have "x / u \<le> real_of_int 0" using \<open>x \<le> 0\<close> upos by (simp add: divide_nonpos_pos)
  then have "roundHalfEven (x / u) \<le> 0" by (rule roundHalfEven_le)
  then have "real_of_int (roundHalfEven (x / u)) * u \<le> 0"
    using upos by (simp add: mult_le_0_iff)
  then show ?thesis
    using False by (simp add: float64_of_real_def Let_def u_def [symmetric])
qed

lemma float64_of_uint64_one: "float64_of_uint64 1 = 1"
  by (simp add: float64_of_uint64_def float64_of_real_one)

lemma shrinking_step_is_zero:
  assumes "0 < float64_of_real stepRate" "float64_of_real stepRate < 1"
  shows "uint64_of_f64 (fmul64 (float64_of_uint64 1) (float64_of_real stepRate)) = Inr 0"
proof -
  define y where "y = float64_of_real stepRate"
  have y: "0 < y" "y < 1" using assms by (simp_all add: y_def)
  have "0 < stepRate" using float64_of_real_nonpos [of stepRate] assms(1) by linarith
  then have idem: "float64_of_real y = y" unfolding y_def by (rule float64_of_real_idem)
  have "(1::real) \<le> 2 ^ 1024" "(1::real) \<le> 2 ^ 64" by simp_all
  then have big: "y < 2 ^ 1024" "y < 2 ^ 64" using y(2) by linarith+
  have "\<lfloor>y\<rfloor> = 0" using y by (simp add: floor_eq_iff)
  then show ?thesis
    unfolding y_def [symmetric] using y big
    by (simp add: fmul64_def f64_of_real_def float64_of_uint64_one idem Let_def)
qed


section \<open>Generation of biases: a run that never returns\<close>


lemma interpolationLoop_stuck:
  "interpolationLoop maxCardinality stepRate rangeLength i step nextStepChange ticks = Some y \<Longrightarrow>
   \<not> (i < maxCardinality \<and> \<not> i > nextStepChange \<and> step = 0)"
proof (rule interpolationLoop.raw_induct
    [where P = "\<lambda>maxCardinality stepRate rangeLength i step nextStepChange ticks y.
                  \<not> (i < maxCardinality \<and> \<not> i > nextStepChange \<and> step = 0)"],
    goal_cases)
  case prems: (1 loop maxCardinality stepRate rangeLength i step nextStepChange ticks y)
  show ?case
  proof
    assume stuck: "i < maxCardinality \<and> \<not> i > nextStepChange \<and> step = 0"
    then have "loop maxCardinality stepRate rangeLength i step nextStepChange (ticks @ [i]) = Some y"
      using prems by simp
    then have "\<not> (i < maxCardinality \<and> \<not> i > nextStepChange \<and> step = 0)"
      using prems by blast
    then show False using stuck by simp
  qed
qed

lemma interpolationLoop_stuck_None:
  "i < maxCardinality \<Longrightarrow> \<not> i > nextStepChange \<Longrightarrow>
   interpolationLoop maxCardinality stepRate rangeLength i 0 nextStepChange ticks = None"
  using interpolationLoop_stuck [of maxCardinality stepRate rangeLength i 0 nextStepChange ticks]
  by (cases "interpolationLoop maxCardinality stepRate rangeLength i 0 nextStepChange ticks") auto

lemma unat_of_nat_small: "k < 2 ^ 64 \<Longrightarrow> unat (word_of_nat k :: uint64) = k"
  by (simp add: unat_of_nat take_bit_nat_eq_self)

lemma interpolationLoop_unit_step:
  assumes k: "k \<le> unat rangeLength" and rl: "unat rangeLength < unat maxCardinality"
  shows "interpolationLoop maxCardinality stepRate rangeLength (word_of_nat k) 1 rangeLength ticks
       = interpolationLoop maxCardinality stepRate rangeLength (word_of_nat k + 1) 1 rangeLength
           (ticks @ [word_of_nat k])"
proof -
  have "unat rangeLength < 2 ^ 64" using unsigned_less [of rangeLength] by simp
  then have u: "unat (word_of_nat k :: uint64) = k"
    using k by (intro unat_of_nat_small) simp
  have lt: "(word_of_nat k :: uint64) < maxCardinality"
    using k rl by (simp add: word_less_nat_alt u)
  have le: "\<not> (word_of_nat k :: uint64) > rangeLength"
    using k by (simp add: word_less_nat_alt u)
  show ?thesis
    by (subst interpolationLoop.simps) (simp only: lt le if_True if_False)
qed

lemma interpolationLoop_first_range:
  assumes rl: "unat rangeLength < unat maxCardinality"
  shows "k \<le> Suc (unat rangeLength) \<Longrightarrow>
     interpolationLoop maxCardinality stepRate rangeLength 0 1 rangeLength []
       = interpolationLoop maxCardinality stepRate rangeLength (word_of_nat k) 1 rangeLength
           (map word_of_nat [0..<k])"
proof (induction k)
  case 0
  then show ?case by simp
next
  case (Suc k)
  then have "interpolationLoop maxCardinality stepRate rangeLength 0 1 rangeLength []
       = interpolationLoop maxCardinality stepRate rangeLength (word_of_nat k) 1 rangeLength
           (map word_of_nat [0..<k])"
    by simp
  also have "\<dots> = interpolationLoop maxCardinality stepRate rangeLength (word_of_nat k + 1) 1
       rangeLength (map word_of_nat [0..<k] @ [word_of_nat k])"
    using Suc.prems rl by (intro interpolationLoop_unit_step) simp_all
  finally show ?case by (simp add: add.commute)
qed

lemma calculateInterpolationPoints_diverges:
  assumes mc: "16384 < unat maxCardinality"
    and r: "0 < float64_of_real stepRate" "float64_of_real stepRate < 1"
  shows "calculateInterpolationPoints maxCardinality 1 stepRate = None"
proof -
  define rl where "rl = maxCardinality div 10"
  have url: "unat rl = unat maxCardinality div 10"
    by (simp add: rl_def unat_div_distrib)
  have mc64: "unat maxCardinality < 2 ^ 64" using unsigned_less [of maxCardinality] by simp
  have rl_lt: "unat rl < unat maxCardinality" and rl1: "Suc (unat rl) < unat maxCardinality"
    and rl_pos: "1 \<le> unat rl" and rl2: "unat rl + unat rl < 2 ^ 64"
    using mc mc64 unfolding url by simp_all
  define i :: uint64 where "i = word_of_nat (Suc (unat rl))"
  have "Suc (unat rl) < 2 ^ 64" using rl1 mc64 by linarith
  then have ui: "unat i = Suc (unat rl)"
    unfolding i_def by (rule unat_of_nat_small)
  have i_lt: "i < maxCardinality" using rl1 by (simp add: word_less_nat_alt ui)
  have i_gt: "i > rl" by (simp add: word_less_nat_alt ui)
  have "unat rl + unat rl < 2 ^ LENGTH(64)" using rl2 by simp
  then have "unat (rl + rl) = unat rl + unat rl"
    by (rule unat_add_lem [THEN iffD1])
  then have i_le: "\<not> i > rl + rl" using rl_pos by (simp add: word_less_nat_alt ui)
  have "interpolationLoop maxCardinality stepRate rl 0 1 rl []
        = interpolationLoop maxCardinality stepRate rl i 1 rl
            (map word_of_nat [0..<Suc (unat rl)])"
    unfolding i_def using rl_lt by (rule interpolationLoop_first_range) simp
  also have "\<dots> = interpolationLoop maxCardinality stepRate rl (i + 0) 0 (rl + rl)
            (map word_of_nat [0..<Suc (unat rl)] @ [i])"
    by (subst interpolationLoop.simps)
      (simp only: i_lt i_gt if_True shrinking_step_is_zero [OF r] sum.case)
  also have "\<dots> = None"
    unfolding add_0_right using i_lt i_le by (rule interpolationLoop_stuck_None)
  finally show ?thesis
    by (simp add: calculateInterpolationPoints_def rl_def [symmetric])
qed


text \<open>
  Claim C7 fails on the code. For every options value with \<open>MaxCardinality\<close> above \<open>m\<close>,
  \<open>Repeats\<close> above 0, \<open>InitialStep = 1\<close> and a \<open>StepRate\<close> that is, as a \<^verbatim>\<open>float64\<close>, strictly
  between 0 and 1, and a sampler that is not \<^verbatim>\<open>nil\<close>, all checks of \<open>GenerateBiases\<close> pass and
  the call never returns: the loop of \<open>calculateInterpolationPoints\<close> walks with step 1
  over the first tenth of the range, then sets the step to \<^verbatim>\<open>uint64(1 * stepRate) = 0\<close>, and
  from then on the index stays where it is, below \<open>maxCardinality\<close>, while the list of
  ticks grows.
\<close>

theorem GenerateBiases_diverges:
  "word_of_nat m < MaxCardinality options \<Longrightarrow> 0 < Repeats options \<Longrightarrow>
   InitialStep options = 1 \<Longrightarrow> 0 < float64_of_real (StepRate options) \<Longrightarrow>
   float64_of_real (StepRate options) < 1 \<Longrightarrow>
   GenerateBiases simulate False (Some options) = None"
proof -
  assume mc: "word_of_nat m < MaxCardinality options" and rep: "0 < Repeats options"
    and st: "InitialStep options = 1"
    and r: "0 < float64_of_real (StepRate options)" "float64_of_real (StepRate options) < 1"
  have "unat (word_of_nat m :: uint64) = 16384"
    by (simp add: m_eq)
  then have "16384 < unat (MaxCardinality options)"
    using mc by (simp add: word_less_nat_alt)
  then have "calculateInterpolationPoints (MaxCardinality options) 1 (StepRate options) = None"
    using r by (rule calculateInterpolationPoints_diverges)
  then show ?thesis
    using mc rep st r by (simp add: GenerateBiases_def Let_def not_le [symmetric])
qed

text \<open>
  The instance of C7 \<^verbatim>\<open>MaxCardinality = 16385, Repeats = 1, InitialStep = 1, StepRate = 0.5\<close>, whatever
  the simulation that would follow.
\<close>

theorem GenerateBiases_diverges_witness:
  "GenerateBiases (\<lambda>options cardinalities. Some cardinalities) False
     (Some \<lparr>MaxCardinality = 16385, Repeats = 1, InitialStep = 1, StepRate = 1 / 2\<rparr>) = None"
proof -
  let ?options = "\<lparr>MaxCardinality = 16385, Repeats = 1, InitialStep = 1, StepRate = 1 / 2\<rparr>"
  have "word_of_nat m < MaxCardinality ?options"
    by (simp add: m_eq)
  moreover have "0 < Repeats ?options" "InitialStep ?options = 1"
    "0 < float64_of_real (StepRate ?options)" "float64_of_real (StepRate ?options) < 1"
    by (simp_all add: float64_of_real_half)
  ultimately show ?thesis by (rule GenerateBiases_diverges)
qed


section \<open>The invariant of the data model\<close>


lemma addHash_length:
  "addHash s h = Inr s' \<Longrightarrow> length (registers s') = length (registers s)"
  by (auto simp add: addHash_eq Let_def split: if_splits)

lemma rollupLoop_length:
  "rollupLoop base regs is = Inr rs \<Longrightarrow> length rs = length base"
proof (induction "is" arbitrary: base)
  case Nil
  then show ?case by simp
next
  case (Cons i "is")
  then show ?case by (cases "rollupMax 0 regs i") auto
qed

lemma Rollup_length:
  "Rollup db sketches = Inr r \<Longrightarrow> length (registers r) = m"
  by (cases sketches)
    (auto simp add: Rollup_def createSketch_def Let_def
      split: option.splits sum.splits if_splits dest: rollupLoop_length)

lemma Merge_length:
  "length (registers (fst (Merge h a b) r)) = length (registers (h r))"
  by (simp add: Merge_eq)

text \<open>
  Property X1. Every sketch that the package hands out has exactly \<open>m\<close> registers:
  \<open>createSketch\<close> returns such a sketch, \<open>Insert\<close> and \<open>Merge\<close> keep the number of registers of
  every sketch, and whatever \<open>Rollup\<close> and \<open>ProtoDeserialize\<close> return has \<open>m\<close> registers.
\<close>

theorem wf_sketch_invariant:
  "wf_sketch (createSketch db)
   \<and> (wf_sketch s \<and> Insert hash s e = Inr s' \<longrightarrow> wf_sketch s')
   \<and> (wf_sketch (h r) \<longrightarrow> wf_sketch (fst (Merge h a b) r))
   \<and> (Rollup db sketches = Inr t \<longrightarrow> wf_sketch t)
   \<and> (ProtoDeserialize unmarshal db protoBs = Inr u \<longrightarrow> wf_sketch u)"
proof (intro conjI impI)
  show "wf_sketch (createSketch db)" by (simp add: wf_sketch_def createSketch_def)
  show "wf_sketch s'" if "wf_sketch s \<and> Insert hash s e = Inr s'"
    using that addHash_length [of s "hash e" s'] by (simp add: wf_sketch_def Insert_def)
  show "wf_sketch (fst (Merge h a b) r)" if "wf_sketch (h r)"
    using that by (simp add: wf_sketch_def Merge_length)
  show "wf_sketch t" if "Rollup db sketches = Inr t"
    using that by (simp add: wf_sketch_def Rollup_length)
  show "wf_sketch u" if "ProtoDeserialize unmarshal db protoBs = Inr u"
    using that
    by (auto simp add: wf_sketch_def ProtoDeserialize_eq split: option.splits sum.splits if_splits)
qed

text \<open>
  Instances of X1 on the sketch that \<open>createSketch\<close> returns.
\<close>

theorem wf_sketch_invariant_witness:
  "let db = \<lparr>maxTick = 100000, getInterpolatedBias = (\<lambda>x. 1)\<rparr>;
       s = createSketch db;
       h = (\<lambda>r. s)
   in wf_sketch s
      \<and> Insert (\<lambda>e. 0) s [] = Inr (s\<lparr>registers := (registers s)[0 := 51]\<rparr>)
      \<and> wf_sketch (s\<lparr>registers := (registers s)[0 := 51]\<rparr>)
      \<and> wf_sketch (fst (Merge h 0 1) 0)
      \<and> Rollup db [s] = Inr s \<and> ProtoDeserialize Inr db (Some \<lparr>Version = ''1'', Registers = []\<rparr>) = Inr s"
proof -
  define db where "db = \<lparr>maxTick = 100000, getInterpolatedBias = (\<lambda>x. 1::real)\<rparr>"
  define s where "s = createSketch db"
  define h :: store where "h = (\<lambda>r. s)"
  note inst = wf_sketch_invariant
    [where db = db and s = s and hash = "\<lambda>e. 0" and e = "[]"
       and s' = "s\<lparr>registers := (registers s)[0 := 51]\<rparr>"
       and h = h and r = 0 and a = 0 and b = 1 and sketches = "[s]" and t = s
       and unmarshal = Inr and protoBs = "Some \<lparr>Version = ''1'', Registers = []\<rparr>" and u = s]
  have wf: "wf_sketch s" using inst unfolding s_def by blast
  have z: "countLeadingZeroBits 50 0 = 50"
    using countLeadingZeroBits_Len64 [of 0 50] by (simp add: Len64_def len_nat.simps)
  have g: "getRegisterAndLeadingZeros 0 = (0, 50)"
    unfolding getRegisterAndLeadingZeros_eq by (simp add: z)
  have ins: "Insert (\<lambda>e. 0) s [] = Inr (s\<lparr>registers := (registers s)[0 := 51]\<rparr>)"
    by (simp add: Insert_eq g s_def createSketch_def m_eq)
  have wf': "wf_sketch (s\<lparr>registers := (registers s)[0 := 51]\<rparr>)"
    using inst wf ins by blast
  have wfm: "wf_sketch (fst (Merge h 0 1) 0)"
    using inst wf by (simp add: h_def)
  have mx: "map ((!) (replicate m (0::uint8))) [0..<m] = replicate m 0"
    using map_nth [of "replicate m (0::uint8)"] by simp
  have "Rollup db [s] =
    Inr \<lparr>biasSet = db,
         registers = map (\<lambda>j. Max ((\<lambda>sk. registers sk ! j) ` set [s])) [0..<m],
         version = currentVersion\<rparr>"
    by (rule Rollup_eq) (simp_all add: s_def createSketch_def)
  then have ro: "Rollup db [s] = Inr s"
    by (simp add: s_def createSketch_def mx)
  have de: "ProtoDeserialize Inr db (Some \<lparr>Version = ''1'', Registers = []\<rparr>) = Inr s"
    by (simp add: ProtoDeserialize_eq s_def createSketch_def currentVersion_def)
  show ?thesis
    unfolding Let_def db_def [symmetric] s_def [symmetric] h_def [symmetric]
    using wf ins wf' wfm ro de by simp
qed

end
